theory Spec2Isabelle
  imports Main
begin

unbundle bit_operations_syntax

section \<open>Errors\<close>

text \<open>
  The exceptions of the Python sources that the embedded functions can raise.  A function
  that can raise returns \<open>error + 'a\<close>, with \<open>Inl\<close> for the exception.
\<close>

datatype error =
    AssertionError
  | TypeError
  | ValueError
  | ZeroDivisionError
  | IndexError
  | UserError
  | ConsumeError
  | StopIteration
  | LoadError
  | InitializationError
  | SyntaxError
  | ProviderError

section \<open>bitmap.py\<close>

text \<open>
  A bitmap is the Python tuple \<open>(integer, bits)\<close>; Python integers are unbounded, so both
  components are \<open>int\<close>.  A negative \<open>bits\<close> marks a signed bitmap.  Python's \<open>&\<close>,
  \<open>|\<close>, \<open>^\<close>, \<open><<\<close> and \<open>>>\<close> on integers are \<open>AND\<close>, \<open>OR\<close>, \<open>XOR\<close>,
  \<open>push_bit\<close> and \<open>drop_bit\<close> on \<open>int\<close>.  \<open>2**n\<close> is an integer only for \<open>n \<ge> 0\<close>:
  for a negative \<open>n\<close> Python 2 yields a float, and the bit operation applied to it next
  raises \<open>TypeError\<close>; a shift by a negative count raises \<open>ValueError\<close>.
\<close>

type_synonym bitmap = "int \<times> int"

definition new :: "int \<Rightarrow> int \<Rightarrow> bitmap" where
  "new val sz =
     (if sz < 0 then (let mask = 2 ^ nat \<bar>sz\<bar> - 1 in (val AND mask, sz))
      else (let mask = 2 ^ nat \<bar>sz\<bar> - 1 in (val AND mask, sz)))"

definition zero :: bitmap where
  "zero = new 0 0"

definition size_bm :: "bitmap \<Rightarrow> int" where
  "size_bm bm = (case bm of (v, s) \<Rightarrow> \<bar>s\<bar>)"

definition signed :: "bitmap \<Rightarrow> bool" where
  "signed bm = (case bm of (i, sz) \<Rightarrow> sz < 0)"

definition cast_signed :: "bitmap \<Rightarrow> bitmap" where
  "cast_signed bm = (case bm of (i, sz) \<Rightarrow> (i, - \<bar>sz\<bar>))"

definition cast_unsigned :: "bitmap \<Rightarrow> bitmap" where
  "cast_unsigned bm = (case bm of (i, sz) \<Rightarrow> (i, \<bar>sz\<bar>))"

definition "value" :: "bitmap \<Rightarrow> int" where
  "value bm =
     (case bm of (v, s) \<Rightarrow>
        if s < 0 then
          (let signmask = 2 ^ nat (\<bar>s\<bar> - 1);
               res = v AND (signmask - 1)
           in if v AND signmask \<noteq> 0 then (signmask - res) * (- 1)
              else res AND (signmask - 1))
        else v)"

definition number :: "bitmap \<Rightarrow> int" where
  "number = value"

text \<open>\<open>set\<close> and \<open>get\<close> build their mask with \<open>reduce\<close> over \<open>range(position, position+count)\<close>.\<close>

definition range_mask :: "int \<Rightarrow> int \<Rightarrow> int" where
  "range_mask position count =
     fold (\<lambda>v r. push_bit (nat v) 1 OR r) [position..position + count - 1] 0"


definition get_bm :: "bitmap \<Rightarrow> int \<Rightarrow> int \<Rightarrow> error + bitmap" where
  "get_bm bm position count =
     (case bm of (integer, sz) \<Rightarrow>
        if count < 0 \<or> position < 0 then Inl AssertionError
        else if position + count > \<bar>sz\<bar> then Inl AssertionError
        else (let mask = range_mask position count
              in Inr (drop_bit (nat position) (integer AND mask), count)))"

definition add :: "bitmap \<Rightarrow> int \<Rightarrow> bitmap" where
  "add bm integer =
     (case bm of (n, sz) \<Rightarrow>
        let mask = push_bit (nat \<bar>sz\<bar>) 1 - 1 in ((integer + n) AND mask, sz))"










definition push :: "bitmap \<Rightarrow> bitmap \<Rightarrow> bitmap" where
  "push bm operand =
     (case bm of (result, rbits) \<Rightarrow> case operand of (numb, nbits) \<Rightarrow>
        let rmask = 2 ^ nat \<bar>rbits\<bar> - 1;
            nmask = 2 ^ nat \<bar>nbits\<bar> - 1;
            res = result AND rmask;
            res = push_bit (nat \<bar>nbits\<bar>) res;
            res = res OR (numb AND nmask)
        in (res, if rbits < 0 then rbits - \<bar>nbits\<bar> else rbits + \<bar>nbits\<bar>))"

text \<open>
  \<open>insert\<close> takes \<open>2**rbits\<close> and \<open>2**nbits\<close> without \<open>abs\<close>: with a negative
  \<open>nbits\<close> the mask is a float and \<open>number & nmask\<close> raises \<open>TypeError\<close>; otherwise
  with a negative \<open>rbits\<close> the shift \<open>res <<= rbits\<close> raises \<open>ValueError\<close>.
\<close>

definition insert_bm :: "bitmap \<Rightarrow> bitmap \<Rightarrow> error + bitmap" where
  "insert_bm bm operand =
     (case bm of (result, rbits) \<Rightarrow> case operand of (numb, nbits) \<Rightarrow>
        if nbits < 0 then Inl TypeError
        else if rbits < 0 then Inl ValueError
        else (let rmask = 2 ^ nat rbits - 1;
                  nmask = 2 ^ nat nbits - 1;
                  res = numb AND nmask;
                  res = push_bit (nat rbits) res;
                  res = res OR (result AND rmask)
              in Inr (res, nbits + rbits)))"

definition consume :: "bitmap \<Rightarrow> int \<Rightarrow> error + (bitmap \<times> int)" where
  "consume bm bits =
     (if bits < 0 then Inl AssertionError
      else (case bm of (bitmapinteger, bitmapsize) \<Rightarrow>
        let integermask = 2 ^ nat bits;
            integersize = (if bits > \<bar>bitmapsize\<bar> then \<bar>bitmapsize\<bar> else bits);
            res = bitmapinteger AND (integermask - 1)
        in if bitmapsize < 0 then
             (let signmask = drop_bit 1 integermask;
                  res' = (if res AND signmask \<noteq> 0
                          then (res AND (signmask - 1)) - drop_bit 1 integermask
                          else res AND (signmask - 1))
              in Inr ((drop_bit (nat integersize) bitmapinteger, bitmapsize + integersize), res'))
           else Inr ((drop_bit (nat integersize) bitmapinteger, bitmapsize - integersize), res)))"

definition shift :: "bitmap \<Rightarrow> int \<Rightarrow> error + (bitmap \<times> int)" where
  "shift bm bits0 =
     (if bits0 < 0 then Inl AssertionError
      else (case bm of (bitmapinteger, bitmapsize) \<Rightarrow>
        let integermask = 2 ^ nat bits0;
            bits = (if bits0 > \<bar>bitmapsize\<bar> then \<bar>bitmapsize\<bar> else bits0);
            shifty = \<bar>bitmapsize\<bar> - bits;
            mask = push_bit (nat shifty) (integermask - 1)
        in if bitmapsize < 0 then
             (let signmask = drop_bit 1 integermask;
                  res = drop_bit (nat shifty) (bitmapinteger AND mask);
                  res' = (if res AND signmask \<noteq> 0
                          then (res AND (signmask - 1)) - drop_bit 1 integermask
                          else res AND (signmask - 1))
              in Inr ((bitmapinteger AND NOT mask, - shifty), res'))
           else (let res = drop_bit (nat shifty) (bitmapinteger AND mask)
                 in Inr ((bitmapinteger AND NOT mask, shifty), res))))"

text \<open>
  \<open>ror\<close> and \<open>rol\<close> are lambdas over \<open>(v, b)\<close> and a shift count.  In \<open>ror\<close> a negative
  count makes \<open>2**shift\<close> a float (\<open>TypeError\<close>), and a count above \<open>b\<close> a negative shift
  (\<open>ValueError\<close>).  In \<open>rol\<close> a negative count is a negative shift (\<open>ValueError\<close>), and a
  count above \<open>b\<close> makes \<open>2**(b-shift)\<close> a float under \<open>^\<close> (\<open>TypeError\<close>).
\<close>

definition ror :: "bitmap \<Rightarrow> int \<Rightarrow> error + bitmap" where
  "ror bm shft =
     (case bm of (v, b) \<Rightarrow>
        if shft < 0 then Inl TypeError
        else if b - shft < 0 then Inl ValueError
        else Inr ((push_bit (nat (b - shft)) (v AND (2 ^ nat shft - 1)) OR drop_bit (nat shft) v)
                    AND (2 ^ nat b - 1), b))"

definition rol :: "bitmap \<Rightarrow> int \<Rightarrow> error + bitmap" where
  "rol bm shft =
     (case bm of (v, b) \<Rightarrow>
        if shft < 0 then Inl ValueError
        else if b < 0 \<or> b - shft < 0 then Inl TypeError
        else Inr ((push_bit (nat shft) v
                     OR drop_bit (nat (b - shft))
                          (v AND ((2 ^ nat b - 1) XOR (2 ^ nat (b - shft) - 1))))
                    AND (2 ^ nat b - 1), b))"

text \<open>The representation invariant of a bitmap: \<open>0 \<le> value < 2 ^ |width|\<close>.\<close>

definition wf_bitmap :: "bitmap \<Rightarrow> bool" where
  "wf_bitmap bm = (case bm of (v, w) \<Rightarrow> 0 \<le> v \<and> v < 2 ^ nat \<bar>w\<bar>)"

text \<open>
  \<open>splitter\<close> is the generator behind \<open>split\<close>: it consumes \<open>maxsize\<close> bits at a time from
  the low end and yields the rest when fewer remain.  With \<open>maxsize = 0\<close> the Python loop
  never ends, so the function is partial (\<open>None\<close> is "does not return").  \<open>split\<close> reverses
  the generated list.
\<close>

partial_function (option) splitter ::
  "bitmap \<Rightarrow> int \<Rightarrow> int \<Rightarrow> bitmap list \<Rightarrow> (error + bitmap list) option" where
  "splitter bm sf maxsize acc =
     (case bm of (v, s) \<Rightarrow>
        if s < maxsize then Some (Inr (if s > 0 then acc @ [(v, s * sf)] else acc))
        else (case consume bm maxsize of
                Inl e \<Rightarrow> Some (Inl e)
              | Inr (bm', v') \<Rightarrow> splitter bm' sf maxsize (acc @ [(v', maxsize * sf)])))"

declare splitter.simps [code]

definition split :: "bitmap \<Rightarrow> int \<Rightarrow> (error + bitmap list) option" where
  "split bm maxsize =
     map_option (map_sum id rev)
       (splitter bm (if maxsize < 0 then - 1 else 1) \<bar>maxsize\<bar> [])"

section \<open>Python sequences\<close>

text \<open>
  Python's slice \<open>xs[i:j]\<close> clamps both bounds into \<open>0..len(xs)\<close>, counting a negative
  bound from the end; \<open>xs[:j]\<close> starts at 0 and \<open>xs[i:]\<close> ends at \<open>len(xs)\<close>.  Indexing
  \<open>xs[i]\<close> raises \<open>IndexError\<close> out of range, and \<open>list.insert\<close> clamps like a slice bound.
\<close>

definition py_clamp :: "int \<Rightarrow> int \<Rightarrow> int" where
  "py_clamp n i = (if i < 0 then max 0 (i + n) else min i n)"

definition py_slice :: "'a list \<Rightarrow> int \<Rightarrow> int \<Rightarrow> 'a list" where
  "py_slice xs i j =
     (let n = int (length xs); a = py_clamp n i; b = py_clamp n j
      in take (nat (b - a)) (drop (nat a) xs))"

definition py_prefix :: "'a list \<Rightarrow> int \<Rightarrow> 'a list" where
  "py_prefix xs j = py_slice xs 0 j"

definition py_suffix :: "'a list \<Rightarrow> int \<Rightarrow> 'a list" where
  "py_suffix xs i = py_slice xs i (int (length xs))"

definition py_index :: "'a list \<Rightarrow> int \<Rightarrow> error + nat" where
  "py_index xs i =
     (let n = int (length xs); j = (if i < 0 then n + i else i)
      in if 0 \<le> j \<and> j < n then Inr (nat j) else Inl IndexError)"

definition py_insert :: "'a list \<Rightarrow> int \<Rightarrow> 'a \<Rightarrow> 'a list" where
  "py_insert xs i x =
     (let j = nat (py_clamp (int (length xs)) i) in take j xs @ [x] @ drop j xs)"

section \<open>provider.py: the string provider\<close>

text \<open>
  \<open>provider.string\<close> keeps a byte array and a cursor.  \<open>consume\<close> raises only when
  nothing can be read at the cursor; when fewer than \<open>amount\<close> bytes remain it returns
  them and leaves the cursor where it was.  For a negative amount the source means to
  raise \<open>UserError\<close>, but building its message formats the integer amount with \<open>{:s}\<close>,
  which raises \<open>ValueError\<close>; the \<open>mapexception\<close> decorator turns that into
  \<open>ProviderError\<close>.
\<close>

record string_provider =
  data :: string
  offset :: int

definition string_seek :: "string_provider \<Rightarrow> int \<Rightarrow> int \<times> string_provider" where
  "string_seek p ofs = (offset p, p\<lparr>offset := ofs\<rparr>)"

definition string_consume :: "string_provider \<Rightarrow> int \<Rightarrow> error + (string \<times> string_provider)" where
  "string_consume p amount =
     (if amount < 0 then Inl ProviderError
      else if amount = 0 then Inr ([], p)
      else if offset p \<ge> int (length (data p)) then Inl ConsumeError
      else (let minimum = min (offset p + amount) (int (length (data p)));
                res = py_slice (data p) (offset p) minimum
            in if res = [] \<and> amount > 0 then Inl ConsumeError
               else if int (length res) = amount
                    then Inr (res, p\<lparr>offset := offset p + amount\<rparr>)
                    else Inr (res, p)))"

section \<open>ptype.py: instances\<close>

text \<open>
  An instance is either atomic (\<open>ptype.type\<close>: position, \<open>length\<close>, and the bytes read so
  far, \<open>None\<close> before any load) or a container (\<open>ptype.container\<close>: position and the list
  of its children, \<open>None\<close> before allocation).  Methods that mutate the instance return
  the instance after the call together with the exception raised, if any, since Python
  keeps the mutations made before an exception.
\<close>

datatype inst =
    Type int int "string option"
  | Container int "inst list option"

fun getoffset :: "inst \<Rightarrow> int" where
  "getoffset (Type p l v) = p"
| "getoffset (Container p v) = p"

text \<open>\<open>container.blocksize\<close> raises \<open>InitializationError\<close> when the value is \<open>None\<close>.\<close>

fun blocksize :: "inst \<Rightarrow> error + int"
  and blocksize_sum :: "inst list \<Rightarrow> error + int" where
  "blocksize (Type p l v) = Inr l"
| "blocksize (Container p None) = Inl InitializationError"
| "blocksize (Container p (Some ns)) = blocksize_sum ns"
| "blocksize_sum [] = Inr 0"
| "blocksize_sum (n # ns) =
     (case blocksize n of Inl e \<Rightarrow> Inl e
      | Inr b \<Rightarrow> (case blocksize_sum ns of Inl e \<Rightarrow> Inl e | Inr s \<Rightarrow> Inr (b + s)))"

fun size_of :: "inst \<Rightarrow> int"
  and size_sum :: "inst list \<Rightarrow> int" where
  "size_of (Type p l None) = 0"
| "size_of (Type p l (Some v)) =
     (if int (length v) \<ge> l \<or> v \<noteq> [] then int (length v) else 0)"
| "size_of (Container p None) = 0"
| "size_of (Container p (Some ns)) = size_sum ns"
| "size_sum [] = 0"
| "size_sum (n # ns) = size_of n + size_sum ns"

text \<open>
  \<open>container.initializedQ\<close> tests \<open>size() >= blocksize()\<close> only after all children are
  initialized, and then \<open>blocksize()\<close> cannot raise (lemma \<open>initialized_blocksize\<close> below),
  so the \<open>Inl\<close> branch here is never taken.
\<close>

fun initializedQ :: "inst \<Rightarrow> bool"
  and initializedQ_all :: "inst list \<Rightarrow> bool" where
  "initializedQ (Type p l None) = False"
| "initializedQ (Type p l (Some v)) = (int (length v) \<ge> l)"
| "initializedQ (Container p None) = False"
| "initializedQ (Container p (Some ns)) =
     (initializedQ_all ns \<and>
      (case blocksize_sum ns of Inl e \<Rightarrow> False | Inr b \<Rightarrow> size_sum ns \<ge> b))"
| "initializedQ_all [] = True"
| "initializedQ_all (n # ns) = (initializedQ n \<and> initializedQ_all ns)"

text \<open>
  \<open>container.setposition\<close> with \<open>recurse\<close> walks the children in order; the next offset
  adds the child's \<open>size()\<close> if it is initialized and its \<open>blocksize()\<close> otherwise.
\<close>

fun setposition :: "inst \<Rightarrow> int \<Rightarrow> bool \<Rightarrow> inst \<times> error option"
  and setposition_elems :: "inst list \<Rightarrow> int \<Rightarrow> inst list \<times> error option" where
  "setposition (Type p l v) ofs rec = (Type ofs l v, None)"
| "setposition (Container p None) ofs rec = (Container ofs None, None)"
| "setposition (Container p (Some ns)) ofs rec =
     (if rec then (case setposition_elems ns ofs of (ns', e) \<Rightarrow> (Container ofs (Some ns'), e))
      else (Container ofs (Some ns), None))"
| "setposition_elems [] ofs = ([], None)"
| "setposition_elems (n # ns) ofs =
     (case setposition n ofs True of
        (n', Some e) \<Rightarrow> (n' # ns, Some e)
      | (n', None) \<Rightarrow>
          (case (if initializedQ n' then Inr (size_of n') else blocksize n') of
             Inl e \<Rightarrow> (n' # ns, Some e)
           | Inr d \<Rightarrow> (case setposition_elems ns (ofs + d) of (ns', e) \<Rightarrow> (n' # ns', e))))"

definition setoffset :: "inst \<Rightarrow> int \<Rightarrow> bool \<Rightarrow> inst \<times> error option" where
  "setoffset self ofs rec = setposition self ofs rec"

text \<open>
  \<open>__deserialize_block__\<close>.  An atomic type stores \<open>block[:bs]\<close> and raises
  \<open>StopIteration\<close> when the block is shorter than its blocksize.  A container hands
  each child its slice while the running total is below the expected blocksize
  (\<open>deserialize_elems\<close>), then fills zero-sized children (\<open>deserialize_zero\<close>), and
  raises \<open>StopIteration\<close> or \<open>LoadError\<close> when the total differs from the expected size.
\<close>

fun deserialize_block :: "inst \<Rightarrow> string \<Rightarrow> inst \<times> error option"
  and deserialize_elems ::
    "inst list \<Rightarrow> string \<Rightarrow> int \<Rightarrow> int \<Rightarrow> (inst list \<times> int) \<times> error option"
  and deserialize_zero :: "inst list \<Rightarrow> string \<Rightarrow> inst list \<times> error option" where
  "deserialize_block (Type p l v) block =
     (let bs = l in
      if int (length block) < bs then (Type p l (Some (py_prefix block bs)), Some StopIteration)
      else (Type p l (Some (py_prefix block bs)), None))"
| "deserialize_block (Container p None) block = (Container p None, Some SyntaxError)"
| "deserialize_block (Container p (Some ns)) block =
     (case blocksize_sum ns of
        Inl e \<Rightarrow> (Container p (Some ns), Some e)
      | Inr expected \<Rightarrow>
          (case deserialize_elems ns block 0 expected of
             ((ns', tot), Some e) \<Rightarrow> (Container p (Some ns'), Some e)
           | ((ns', tot), None) \<Rightarrow>
               (Container p (Some ns'),
                if tot < expected then Some StopIteration
                else if tot > expected then Some LoadError
                else None)))"
| "deserialize_elems [] block tot expected = (([], tot), None)"
| "deserialize_elems (res # rest) block tot expected =
     (if tot < expected then
        (case blocksize res of
           Inl e \<Rightarrow> ((res # rest, tot), Some e)
         | Inr bs \<Rightarrow>
             (case deserialize_block res (py_prefix block bs) of
                (res', Some e) \<Rightarrow> ((res' # rest, tot), Some e)
              | (res', None) \<Rightarrow>
                  (case deserialize_elems rest (py_suffix block bs) (tot + bs) expected of
                     ((rest', tot'), e) \<Rightarrow> ((res' # rest', tot'), e))))
      else (case deserialize_zero (res # rest) block of (value', e) \<Rightarrow> ((value', tot), e)))"
| "deserialize_zero [] block = ([], None)"
| "deserialize_zero (res # rest) block =
     (case blocksize res of
        Inl e \<Rightarrow> (res # rest, Some e)
      | Inr bs \<Rightarrow>
          if bs \<noteq> 0 then (res # rest, None)
          else (case deserialize_block res (py_prefix block bs) of
                  (res', Some e) \<Rightarrow> (res' # rest, Some e)
                | (res', None) \<Rightarrow>
                    (case deserialize_zero rest block of (rest', e) \<Rightarrow> (res' # rest', e))))"

text \<open>
  \<open>base.load\<close> seeks, consumes \<open>blocksize()\<close> bytes and deserializes; \<open>StopIteration\<close> and
  every \<open>ProviderError\<close> become \<open>LoadError\<close>.  \<open>container.load\<close> (with the default
  \<open>Config.ptype.noncontiguous = False\<close>) catches that \<open>LoadError\<close>, moves the cursor past
  the container, logs, and returns the instance.
\<close>

definition caught_by_load :: "error \<Rightarrow> bool" where
  "caught_by_load e = (e = StopIteration \<or> e = ProviderError \<or> e = ConsumeError)"

definition load :: "string_provider \<Rightarrow> inst \<Rightarrow> (inst \<times> string_provider) \<times> error option" where
  "load src self =
     (let ofs = getoffset self in
      case blocksize self of
        Inl e \<Rightarrow> ((self, src), Some e)
      | Inr bs \<Rightarrow>
          (let src1 = snd (string_seek src ofs) in
           case string_consume src1 bs of
             Inl e \<Rightarrow> ((self, src1), Some (if caught_by_load e then LoadError else e))
           | Inr (block, src2) \<Rightarrow>
               (case deserialize_block self block of
                  (self', Some e) \<Rightarrow> ((self', src2), Some (if caught_by_load e then LoadError else e))
                | (self', None) \<Rightarrow> ((self', src2), None))))"

fun container_load ::
  "string_provider \<Rightarrow> inst \<Rightarrow> (inst \<times> string_provider) \<times> error option" where
  "container_load src (Type p l v) = load src (Type p l v)"
| "container_load src (Container p None) = ((Container p None, src), Some UserError)"
| "container_load src (Container p (Some ns)) =
     (case load src (Container p (Some ns)) of
        ((self', src'), Some e) \<Rightarrow>
          (if e = LoadError then
             (let ofs = getoffset self'; s = size_of self' in
              case blocksize self' of
                Inl e' \<Rightarrow> ((self', src'), Some e')
              | Inr bs \<Rightarrow> ((self', snd (string_seek src' (ofs + bs))), None))
           else ((self', src'), Some e))
      | ((self', src'), None) \<Rightarrow> ((self', src'), None))"

section \<open>pstruct.py and parray.py\<close>

text \<open>
  \<open>pstruct.type.load\<close> for a structure whose fields are atomic types, given by their
  lengths: it creates one uninitialized element per field at consecutive offsets and
  then loads the container.  Field names are not modelled.
\<close>

fun struct_fields :: "int list \<Rightarrow> int \<Rightarrow> inst list" where
  "struct_fields [] ofs = []"
| "struct_fields (l # flds) ofs = Type ofs l None # struct_fields flds (ofs + l)"

definition pstruct_load ::
  "string_provider \<Rightarrow> int \<Rightarrow> int list \<Rightarrow> (inst \<times> string_provider) \<times> error option" where
  "pstruct_load src position flds =
     container_load src (Container position (Some (struct_fields flds position)))"

text \<open>
  \<open>parray.terminated.load\<close> (with \<open>length = None\<close>) for elements of an atomic type of
  length \<open>l\<close>: each element is created at the next offset, appended, and loaded; the loop
  stops after the element for which \<open>isTerminator\<close> holds.  Every exception in the loop
  becomes \<open>LoadError\<close>.  \<open>bz\<close> is \<open>Config.parray.break_on_zero_sized_element\<close>; without it
  a zero-sized element makes the Python loop run forever, so the loop is partial.
\<close>

partial_function (option) terminated_loop ::
  "bool \<Rightarrow> (inst \<Rightarrow> bool) \<Rightarrow> int \<Rightarrow> string_provider \<Rightarrow> int \<Rightarrow> inst list
     \<Rightarrow> ((inst list \<times> string_provider) \<times> error option) option" where
  "terminated_loop bz isTerminator l src ofs elems =
     (case load src (Type ofs l None) of
        ((n, src'), Some e) \<Rightarrow> Some ((elems @ [n], src'), Some LoadError)
      | ((n, src'), None) \<Rightarrow>
          if isTerminator n then Some ((elems @ [n], src'), None)
          else if l \<le> 0 \<and> bz then Some ((elems @ [n], src'), None)
          else if l < 0 then Some ((elems @ [n], src'), Some LoadError)
          else terminated_loop bz isTerminator l src' (ofs + l) (elems @ [n]))"

declare terminated_loop.simps [code]

definition terminated_load ::
  "bool \<Rightarrow> (inst \<Rightarrow> bool) \<Rightarrow> int \<Rightarrow> string_provider \<Rightarrow> int
     \<Rightarrow> ((inst \<times> string_provider) \<times> error option) option" where
  "terminated_load bz isTerminator l src position =
     map_option (\<lambda>((elems, src'), e). ((Container position (Some elems), src'), e))
       (terminated_loop bz isTerminator l src position [])"

text \<open>
  \<open>parray.block.load\<close> (with \<open>length = None\<close>) for elements of an atomic type of length
  \<open>l\<close> and a block size \<open>bsize\<close> (the overridden \<open>blocksize()\<close>): a \<open>LoadError\<close> of an
  element ends the loop, keeping the element unless it ends exactly at the block size;
  otherwise the loop ends with the element that reaches the block size.
\<close>

partial_function (option) block_loop ::
  "bool \<Rightarrow> (inst \<Rightarrow> bool) \<Rightarrow> int \<Rightarrow> int \<Rightarrow> string_provider \<Rightarrow> int \<Rightarrow> int \<Rightarrow> inst list
     \<Rightarrow> ((inst list \<times> string_provider) \<times> error option) option" where
  "block_loop bz isTerminator bsize l src ofs current elems =
     (case load src (Type ofs l None) of
        ((n, src'), Some e) \<Rightarrow>
          (if e = LoadError then
             (let reached = current + l in
              if reached > bsize then Some ((elems @ [n], src'), None)
              else if reached < bsize then Some ((elems @ [n], src'), None)
              else Some ((elems, src'), None))
           else Some ((elems, src'), Some e))
      | ((n, src'), None) \<Rightarrow>
          if l \<le> 0 \<and> bz then Some ((elems, src'), None)
          else if l < 0 then Some ((elems, src'), Some AssertionError)
          else if current + l \<ge> bsize then Some ((elems @ [n], src'), None)
          else if isTerminator n then Some ((elems @ [n], src'), None)
          else block_loop bz isTerminator bsize l src' (ofs + l) (current + l) (elems @ [n]))"

declare block_loop.simps [code]

definition block_load ::
  "bool \<Rightarrow> (inst \<Rightarrow> bool) \<Rightarrow> int \<Rightarrow> int \<Rightarrow> string_provider \<Rightarrow> int
     \<Rightarrow> ((inst \<times> string_provider) \<times> error option) option" where
  "block_load bz isTerminator bsize l src position =
     (if bsize = 0 then Some ((Container position (Some []), src), None)
      else map_option (\<lambda>((elems, src'), e). ((Container position (Some elems), src'), e))
             (block_loop bz isTerminator bsize l src position 0 []))"

text \<open>
  \<open>_parray_generic.insert\<close>: the object takes the offset of the element at \<open>index\<close>, is
  inserted there, and the elements from \<open>index\<close> on are moved, each by the
  \<open>blocksize()\<close> of the one before.
\<close>

fun insert_loop :: "int list \<Rightarrow> inst list \<Rightarrow> int \<Rightarrow> inst list \<times> error option" where
  "insert_loop [] elems ofs = (elems, None)"
| "insert_loop (i # rest) elems ofs =
     (case py_index elems i of
        Inl e \<Rightarrow> (elems, Some e)
      | Inr j \<Rightarrow>
          (case setoffset (elems ! j) ofs True of
             (v, Some e) \<Rightarrow> (elems[j := v], Some e)
           | (v, None) \<Rightarrow>
               (case blocksize v of
                  Inl e \<Rightarrow> (elems[j := v], Some e)
                | Inr bs \<Rightarrow> insert_loop rest (elems[j := v]) (ofs + bs))))"

fun insert_parray :: "inst \<Rightarrow> int \<Rightarrow> inst \<Rightarrow> inst \<times> error option" where
  "insert_parray (Type p l v) index object = (Type p l v, Some TypeError)"
| "insert_parray (Container p None) index object = (Container p None, Some TypeError)"
| "insert_parray (Container p (Some elems)) index object =
     (case py_index elems index of
        Inl e \<Rightarrow> (Container p (Some elems), Some e)
      | Inr j \<Rightarrow>
          (let ofs = getoffset (elems ! j) in
           case setoffset object ofs True of
             (object', Some e) \<Rightarrow> (Container p (Some elems), Some e)
           | (object', None) \<Rightarrow>
               (let elems' = py_insert elems index object' in
                case insert_loop [index..int (length elems') - 1] elems' ofs of
                  (elems'', e) \<Rightarrow> (Container p (Some elems''), e))))"

section \<open>dynamic.py: align\<close>

text \<open>
  The \<open>blocksize\<close> method that \<open>dynamic.align(size)\<close> gives its padding type.  \<open>parent\<close> is
  the instance's parent and \<open>idx\<close> the position of the instance in \<open>parent.value\<close>
  (\<open>None\<close> when it is not there).  The offset is the parent's offset plus the blocksizes
  of the elements before the instance.
\<close>

fun align_blocksize :: "int \<Rightarrow> inst option \<Rightarrow> nat option \<Rightarrow> error + int" where
  "align_blocksize sz None idx = Inr 0"
| "align_blocksize sz (Some (Type p l v)) idx = Inl TypeError"
| "align_blocksize sz (Some (Container p None)) idx = Inl TypeError"
| "align_blocksize sz (Some (Container p (Some elems))) None = Inr 0"
| "align_blocksize sz (Some (Container p (Some elems))) (Some idx) =
     (case blocksize_sum (take idx elems) of
        Inl e \<Rightarrow> Inl e
      | Inr s \<Rightarrow> (let ofs = p + s in Inr ((- ofs) AND (sz - 1))))"

section \<open>macheap.py: ptr_union\<close>

text \<open>
  The checksummed free-list pointer.  \<open>sz\<close> is the pointer's size in bytes, \<open>cookie\<close> the
  zone's cookie and \<open>pu\<close> the integer held by the object passed in.  The pointer object
  stores an integer masked to its width (\<open>pointer_set\<close>: \<open>__setvalue__\<close> builds
  \<open>bitmap.new(offset, bs*8)\<close> and \<open>__getvalue__\<close> reads it back).  \<open>decode\<close> returns the
  decoded pointer and whether the checksum mismatch was logged; it does not raise on a
  mismatch.
\<close>

definition generate_checksum :: "int \<Rightarrow> int \<Rightarrow> (error + int) option" where
  "generate_checksum sz ptr =
     (let pu = new ptr (sz * 8) in
      map_option
        (map_sum id (\<lambda>parts. number (foldl add (new 0 8) (map number parts)) AND 15))
        (split pu 8))"

definition pointer_set :: "int \<Rightarrow> int \<Rightarrow> int" where
  "pointer_set sz x = number (new x (sz * 8))"

definition decode :: "int \<Rightarrow> int \<Rightarrow> int \<Rightarrow> (error + (int \<times> bool)) option" where
  "decode cookie sz pu =
     (let t = new pu (sz * 8) in
      case rol t 4 of
        Inl e \<Rightarrow> Some (Inl e)
      | Inr t \<Rightarrow>
          (let ptr = number t AND NOT 15;
               cs = ptr XOR cookie
           in map_option
                (map_sum id (\<lambda>c. (pointer_set sz ptr, number t AND 15 \<noteq> c)))
                (generate_checksum sz cs)))"

definition encode :: "int \<Rightarrow> int \<Rightarrow> int \<Rightarrow> (error + int) option" where
  "encode cookie sz pu =
     (case generate_checksum sz (pu XOR cookie) of
        None \<Rightarrow> None
      | Some (Inl e) \<Rightarrow> Some (Inl e)
      | Some (Inr csum) \<Rightarrow>
          (let t = new pu (sz * 8) in
           case rol t 4 of
             Inl e \<Rightarrow> Some (Inl e)
           | Inr t \<Rightarrow>
               (let cs = new (number t OR csum) (size_bm t) in
                case ror cs 4 of
                  Inl e \<Rightarrow> Some (Inl e)
                | Inr cs \<Rightarrow> Some (Inr (pointer_set sz (number cs))))))"

section \<open>ptype.py: serialize and cast\<close>

text \<open>
  \<open>sys.maxint\<close> on a 64-bit interpreter, and \<open>utils.padding.fill\<close> with the default
  padding source, which yields zero bytes.
\<close>

definition sys_maxint :: int where
  "sys_maxint = 2 ^ 63 - 1"

definition padding_fill :: "int \<Rightarrow> string" where
  "padding_fill amount = replicate (nat amount) (CHR 0x00)"

text \<open>
  An instance reads two things of its parent while it serializes: the parent's offset and
  the parent's \<open>blocksize()\<close>, which may raise.  \<open>None\<close> stands for a parent that is not
  a container.  \<open>clamp_to_parent\<close> is the clamping of a size to what is left of the parent.
\<close>

type_synonym parent_info = "(int \<times> (error + int)) option"

definition clamp_to_parent :: "parent_info \<Rightarrow> int \<Rightarrow> int \<Rightarrow> error + int" where
  "clamp_to_parent par p res =
     (case par of
        None \<Rightarrow> Inr res
      | Some (po, pbs) \<Rightarrow>
          (case pbs of
             Inl e \<Rightarrow> Inl e
           | Inr parentSize \<Rightarrow>
               (let childOffset = p - po;
                    maxElementSize = parentSize - childOffset
                in Inr (if res > maxElementSize then maxElementSize else res))))"

text \<open>
  \<open>type.serialize\<close> pads an uninitialized value up to the clamped blocksize and an
  initialized one up to the blocksize; \<open>container.serialize\<close> joins the children and pads
  the result, or returns the plain join when its own \<open>blocksize()\<close> raises.
\<close>

fun serialize :: "parent_info \<Rightarrow> inst \<Rightarrow> error + string"
  and serialize_join :: "parent_info \<Rightarrow> inst list \<Rightarrow> error + string" where
  "serialize par (Type p l v) =
     (if \<not> initializedQ (Type p l v) then
        (case clamp_to_parent par p l of
           Inl e \<Rightarrow> Inl e
         | Inr res \<Rightarrow>
             if res > sys_maxint then Inr []
             else (let padding = padding_fill (if res > 0 then res else 0)
                   in Inr (case v of None \<Rightarrow> padding
                           | Some s \<Rightarrow> s @ drop (length s) padding)))
      else (let result = (case v of None \<Rightarrow> [] | Some s \<Rightarrow> s); res = l
            in if int (length result) < res
               then Inr (result @ padding_fill (res - int (length result)))
               else Inr result))"
| "serialize par (Container p None) = Inl TypeError"
| "serialize par (Container p (Some ns)) =
     (case blocksize_sum ns of
        Inl e \<Rightarrow> serialize_join (Some (p, Inl e)) ns
      | Inr bs \<Rightarrow>
          (case serialize_join (Some (p, Inr bs)) ns of
             Inl e \<Rightarrow> Inl e
           | Inr result \<Rightarrow>
               (case clamp_to_parent par p bs of
                  Inl e \<Rightarrow> Inl e
                | Inr bs' \<Rightarrow>
                    if bs' > sys_maxint then Inr result
                    else if int (length result) < bs'
                         then Inr (result @ padding_fill (bs' - int (length result)))
                         else Inr result)))"
| "serialize_join par [] = Inr []"
| "serialize_join par (n # ns) =
     (case serialize par n of
        Inl e \<Rightarrow> Inl e
      | Inr s \<Rightarrow> (case serialize_join par ns of Inl e \<Rightarrow> Inl e | Inr r \<Rightarrow> Inr (s @ r)))"

text \<open>
  \<open>cast\<close> works on several objects at once, so objects live in a store: a list of objects
  indexed by address.  An object carries its instance tree, its \<open>attributes\<close> dictionary
  and the address of its parent.  \<open>ignored\<close> is the set of attribute names that
  \<open>__update__\<close> does not propagate.
\<close>

record obj =
  node :: inst
  attributes :: "string \<rightharpoonup> string"
  parent :: "nat option"

definition ignored :: "string set" where
  "ignored = {''source'', ''parent'', ''attributes'', ''value'', ''__name__'', ''position'', ''length''}"

definition parent_info_of :: "obj list \<Rightarrow> nat option \<Rightarrow> parent_info" where
  "parent_info_of h par =
     (case par of
        None \<Rightarrow> None
      | Some a \<Rightarrow>
          (case node (h ! a) of
             Container po v \<Rightarrow> Some (po, blocksize (Container po v))
           | Type po l v \<Rightarrow> None))"

text \<open>
  \<open>provider.proxy.consume\<close> on a buffer that is the serialized source object: a read
  that leaves the buffer raises \<open>ConsumeError\<close>.
\<close>

definition proxy_consume :: "string \<Rightarrow> int \<Rightarrow> int \<Rightarrow> error + string" where
  "proxy_consume buf left amount =
     (let right = left + amount
      in if amount \<ge> 0 \<and> left \<ge> 0 \<and> right \<le> int (length buf)
         then Inr (py_slice buf left right)
         else Inl ConsumeError)"

text \<open>
  A shape \<open>t\<close> is what \<open>self.new(t, ...)\<close> instantiates: the fresh instance at a given
  offset, and the shape's \<open>load\<close> run on that instance with a source to read from and the
  blocksize override.  \<open>type_load_override\<close> is \<open>type.load\<close> under that override, and
  \<open>type_shape l\<close> the atomic shape of length \<open>l\<close>.
\<close>

record shape =
  new_inst :: "int \<Rightarrow> inst"
  load_override :: "inst \<Rightarrow> (int \<Rightarrow> int \<Rightarrow> error + string) \<Rightarrow> int \<Rightarrow> inst \<times> error option"

fun type_load_override ::
  "inst \<Rightarrow> (int \<Rightarrow> int \<Rightarrow> error + string) \<Rightarrow> int \<Rightarrow> inst \<times> error option" where
  "type_load_override (Type p l v) consume_at bs =
     (case consume_at 0 bs of
        Inl e \<Rightarrow> (Type p l v, Some (if caught_by_load e then LoadError else e))
      | Inr block \<Rightarrow>
          if int (length block) < bs then (Type p l (Some (py_prefix block bs)), Some LoadError)
          else (Type p l (Some (py_prefix block bs)), None))"
| "type_load_override (Container p v) consume_at bs = (Container p v, Some TypeError)"

definition type_shape :: "int \<Rightarrow> shape" where
  "type_shape l = \<lparr>new_inst = (\<lambda>ofs. Type ofs l None), load_override = type_load_override\<rparr>"

text \<open>
  \<open>base.cast\<close>.  The source is serialized and its blocksize taken; then the attributes of
  the source are emptied while the new instance is created (\<open>utils.assign\<close> restores them
  afterwards); the new instance is loaded through a proxy on the source; the attributes of
  the source are propagated to it; and \<open>__deserialize_block__\<close> is forced on the serialized
  bytes, where \<open>LoadError\<close> and \<open>StopIteration\<close> are swallowed.  An exception of the load is
  only logged.  The size comparison at the end only logs, since \<open>size()\<close> never raises.
  The store is returned on every path, also when the call raises.
\<close>

definition cast :: "obj list \<Rightarrow> nat \<Rightarrow> shape \<Rightarrow> obj list \<times> (error + nat)" where
  "cast h x t =
     (let self = h ! x in
      case serialize (parent_info_of h (parent self)) (node self) of
        Inl e \<Rightarrow> (h, Inl e)
      | Inr bytes \<Rightarrow>
     (case blocksize (node self) of
        Inl e \<Rightarrow> (h, Inl e)
      | Inr bs \<Rightarrow>
          (let ofs = getoffset (node self);
               saved = attributes self;
               h1 = h[x := self\<lparr>attributes := Map.empty\<rparr>];
               r = length h1;
               h2 = h1 @ [\<lparr>node = new_inst t ofs, attributes = attributes (h1 ! x),
                           parent = parent (h1 ! x)\<rparr>];
               h3 = h2[x := (h2 ! x)\<lparr>attributes := saved\<rparr>];
               proxy = (\<lambda>left amount.
                          case serialize (parent_info_of h3 (parent (h3 ! x))) (node (h3 ! x)) of
                            Inl e \<Rightarrow> Inl ProviderError
                          | Inr buf \<Rightarrow> proxy_consume buf left amount);
               loaded = (case load_override t (node (h3 ! r)) proxy bs of
                           (res, None) \<Rightarrow> fst (setoffset res (getoffset res) True)
                         | (res, Some e) \<Rightarrow> res);
               h4 = h3[r := (h3 ! r)\<lparr>node := loaded\<rparr>];
               h5 = h4[r := (h4 ! r)\<lparr>attributes :=
                                        attributes (h4 ! r) ++ (attributes (h4 ! x) |` (- ignored))\<rparr>]
           in case deserialize_block (node (h5 ! r)) bytes of
                (res, None) \<Rightarrow> (h5[r := (h5 ! r)\<lparr>node := res\<rparr>], Inr r)
              | (res, Some e) \<Rightarrow>
                  (h5[r := (h5 ! r)\<lparr>node := res\<rparr>],
                   if e = LoadError \<or> e = StopIteration then Inr r else Inl e))))"


section \<open>Properties of the bitmap operations\<close>

subsection \<open>Auxiliary facts about bit operations on integers\<close>

lemma and_pow2m1: "(x::int) AND (2 ^ n - 1) = take_bit n x"
  by (simp add: take_bit_eq_mask mask_eq_exp_minus_1)

lemma pow2m1_mask: "(2::int) ^ n - 1 = mask n"
  by (simp add: mask_eq_exp_minus_1)

lemma wf_bitmapI: "0 \<le> v \<Longrightarrow> v < 2 ^ nat \<bar>w\<bar> \<Longrightarrow> wf_bitmap (v, w)"
  by (simp add: wf_bitmap_def)











lemma push_bit_bound:
  assumes "0 \<le> (x::int)" "x < 2 ^ r"
  shows "push_bit n x < 2 ^ (r + n)"
proof -
  have "x * 2 ^ n < 2 ^ r * 2 ^ n" using assms by simp
  then show ?thesis by (simp add: push_bit_eq_mult power_add)
qed











lemma not_bit_above:
  assumes "0 \<le> (y::int)" "y < 2 ^ N" "N \<le> k"
  shows "\<not> bit y k"
proof -
  from assms have "take_bit N y = y" by (simp add: take_bit_int_eq_self)
  then have "bit y k = bit (take_bit N y) k" by simp
  with assms(3) show ?thesis by (simp add: bit_take_bit_iff)
qed

lemma take_bit_push_or:
  assumes "0 \<le> (y::int)" "y < 2 ^ N"
  shows "take_bit N (push_bit N z OR y) = y"
proof -
  have "take_bit N (push_bit N z OR y) = take_bit N y"
    by (rule bit_eqI) (auto simp: bit_take_bit_iff bit_or_iff bit_push_bit_iff)
  with assms show ?thesis by (simp add: take_bit_int_eq_self)
qed

lemma drop_bit_push_or:
  assumes "0 \<le> (y::int)" "y < 2 ^ N"
  shows "drop_bit N (push_bit N z OR y) = z"
proof (rule bit_eqI)
  fix k
  have "\<not> bit y (N + k)" by (rule not_bit_above [OF assms]) simp
  then show "bit (drop_bit N (push_bit N z OR y)) k = bit z k"
    by (simp add: bit_drop_bit_eq bit_or_iff bit_push_bit_iff)
qed

lemma and_not_shifted_mask:
  assumes "0 \<le> (v::int)" "v < 2 ^ (s + b)" "b \<le> n"
  shows "v AND NOT (push_bit s (2 ^ n - 1)) = take_bit s v"
proof (rule bit_eqI)
  fix k
  have "bit v k \<Longrightarrow> k < s + b"
    using not_bit_above [OF assms(1,2), of k] by (cases "k < s + b") auto
  then show "bit (v AND NOT (push_bit s (2 ^ n - 1))) k = bit (take_bit s v) k"
    using assms(3)
    by (auto simp: pow2m1_mask bit_and_iff bit_not_iff bit_push_bit_iff bit_mask_iff bit_take_bit_iff)
qed

lemma and_shifted_mask:
  "drop_bit s ((v::int) AND push_bit s (2 ^ n - 1)) = take_bit n (drop_bit s v)"
  by (rule bit_eqI)
     (auto simp: pow2m1_mask bit_and_iff bit_push_bit_iff bit_mask_iff bit_take_bit_iff bit_drop_bit_eq)

lemma sign_read:
  "(if r AND drop_bit 1 (2 ^ nat n) \<noteq> 0
    then (r AND (drop_bit 1 (2 ^ nat n) - 1)) - drop_bit 1 (2 ^ nat n)
    else r AND (drop_bit 1 (2 ^ nat n) - 1)) = value (r, - n)" if "0 \<le> n" for r n :: int
proof (cases "n = 0")
  case True
  then show ?thesis by (simp add: value_def)
next
  case False
  with that have n: "0 < n" by simp
  then have "nat n = Suc (nat (n - 1))" by simp
  then have d: "drop_bit 1 ((2::int) ^ nat n) = 2 ^ nat (n - 1)"
    by (simp add: drop_bit_eq_div)
  from n have a: "\<bar>- n\<bar> - 1 = n - 1" by simp
  show ?thesis
    unfolding d value_def prod.case Let_def a
    using n by (simp add: and.assoc)
qed

lemma consume_unsigned:
  "0 \<le> n \<Longrightarrow> 0 \<le> w \<Longrightarrow>
   consume (v, w) n = Inr ((drop_bit (nat (min n w)) v, w - min n w), take_bit (nat n) v)"
  by (auto simp: consume_def Let_def and_pow2m1 min_def)

lemma consume_signed:
  assumes "0 \<le> n" "w < 0"
  shows "consume (v, w) n =
         Inr ((drop_bit (nat (min n \<bar>w\<bar>)) v, w + min n \<bar>w\<bar>), value (take_bit (nat n) v, - n))"
proof -
  have m: "(if n > \<bar>w\<bar> then \<bar>w\<bar> else n) = min n \<bar>w\<bar>" by (simp add: min_def)
  show ?thesis
    unfolding consume_def Let_def prod.case m and_pow2m1 [of v]
    using assms by (simp only: sign_read [OF assms(1)]) simp
qed

lemma shift_unsigned:
  assumes "0 \<le> n" "0 \<le> w"
  shows "shift (v, w) n =
     Inr ((v AND NOT (push_bit (nat (w - min n w)) (2 ^ nat n - 1)), w - min n w),
          take_bit (nat n) (drop_bit (nat (w - min n w)) v))"
proof -
  have m: "(if n > \<bar>w\<bar> then \<bar>w\<bar> else n) = min n w" using assms by (simp add: min_def)
  have w: "\<bar>w\<bar> = w" using assms by simp
  show ?thesis
    unfolding shift_def Let_def prod.case m w and_shifted_mask
    using assms by simp
qed






lemma push_value:
  assumes "wf_bitmap (x, r)" "wf_bitmap (y, n)"
  shows "push (x, r) (y, n) =
         (push_bit (nat \<bar>n\<bar>) x OR y, if r < 0 then r - \<bar>n\<bar> else r + \<bar>n\<bar>)"
proof -
  from assms have "take_bit (nat \<bar>r\<bar>) x = x" "take_bit (nat \<bar>n\<bar>) y = y"
    by (simp_all add: wf_bitmap_def take_bit_int_eq_self)
  then show ?thesis
    unfolding push_def Let_def prod.case and_pow2m1 by simp
qed

lemma consume_push:
  assumes a: "wf_bitmap a" and b: "wf_bitmap b"
  shows "consume (push a b) (size_bm b) =
         Inr (a, value (if signed a then cast_signed b else cast_unsigned b))"
proof -
  obtain x r where ea: "a = (x, r)" by (cases a)
  obtain y n where eb: "b = (y, n)" by (cases b)
  let ?N = "nat \<bar>n\<bar>"
  from b have y: "0 \<le> y" "y < 2 ^ ?N" by (simp_all add: eb wf_bitmap_def)
  have p: "push (x, r) (y, n) = (push_bit ?N x OR y, if r < 0 then r - \<bar>n\<bar> else r + \<bar>n\<bar>)"
    using a b unfolding ea eb by (rule push_value)
  have t: "take_bit ?N (push_bit ?N x OR y) = y" by (rule take_bit_push_or [OF y])
  have d: "drop_bit ?N (push_bit ?N x OR y) = x" by (rule drop_bit_push_or [OF y])
  show ?thesis
  proof (cases "r < 0")
    case True
    then have m: "min \<bar>n\<bar> \<bar>r - \<bar>n\<bar>\<bar> = \<bar>n\<bar>" by (simp add: min_def)
    have "consume (push_bit ?N x OR y, r - \<bar>n\<bar>) \<bar>n\<bar> =
        Inr ((drop_bit (nat (min \<bar>n\<bar> \<bar>r - \<bar>n\<bar>\<bar>)) (push_bit ?N x OR y),
              r - \<bar>n\<bar> + min \<bar>n\<bar> \<bar>r - \<bar>n\<bar>\<bar>),
             value (take_bit ?N (push_bit ?N x OR y), - \<bar>n\<bar>))"
      by (rule consume_signed) (use True in simp_all)
    note c = this [unfolded m t d]
    from True have "consume (push (x, r) (y, n)) \<bar>n\<bar> =
        Inr ((x, r), value (y, - \<bar>n\<bar>))"
      unfolding p by (simp add: c)
    with True show ?thesis by (simp add: ea eb size_bm_def signed_def cast_signed_def)
  next
    case False
    then have m: "min \<bar>n\<bar> (r + \<bar>n\<bar>) = \<bar>n\<bar>" by (simp add: min_def)
    have "consume (push_bit ?N x OR y, r + \<bar>n\<bar>) \<bar>n\<bar> =
        Inr ((drop_bit (nat (min \<bar>n\<bar> (r + \<bar>n\<bar>))) (push_bit ?N x OR y),
              r + \<bar>n\<bar> - min \<bar>n\<bar> (r + \<bar>n\<bar>)),
             take_bit ?N (push_bit ?N x OR y))"
      by (rule consume_unsigned) (use False in simp_all)
    note c = this [unfolded m t d]
    from False have "consume (push (x, r) (y, n)) \<bar>n\<bar> = Inr ((x, r), y)"
      unfolding p by (simp add: c)
    with False show ?thesis by (simp add: ea eb size_bm_def signed_def cast_unsigned_def value_def)
  qed
qed

lemma shift_insert:
  assumes a: "wf_bitmap a" and b: "wf_bitmap b" and ua: "\<not> signed a" and ub: "\<not> signed b"
  shows "\<exists>c. insert_bm a b = Inr c \<and> shift c (size_bm b) = Inr (a, fst b)"
proof -
  obtain x r where ea: "a = (x, r)" by (cases a)
  obtain y n where eb: "b = (y, n)" by (cases b)
  from ua ub have r: "0 \<le> r" and n: "0 \<le> n" by (simp_all add: ea eb signed_def)
  from a r have x: "0 \<le> x" "x < 2 ^ nat r" by (simp_all add: ea wf_bitmap_def)
  from b n have y: "0 \<le> y" "y < 2 ^ nat n" by (simp_all add: eb wf_bitmap_def)
  let ?c = "(push_bit (nat r) y OR x, n + r)"
  have tb: "take_bit (nat r) x = x" "take_bit (nat n) y = y"
    using x y by (simp_all add: take_bit_int_eq_self)
  have "insert_bm (x, r) (y, n) = Inr ?c"
    unfolding insert_bm_def Let_def prod.case and_pow2m1 tb using r n by simp
  then have i: "insert_bm a b = Inr ?c" by (simp add: ea eb)
  have m: "min n (n + r) = n" using r by simp
  have d: "drop_bit (nat r) (push_bit (nat r) y OR x) = y" by (rule drop_bit_push_or [OF x])
  have t: "take_bit (nat r) (push_bit (nat r) y OR x) = x" by (rule take_bit_push_or [OF x])
  have c0: "0 \<le> push_bit (nat r) y OR x" using x y by simp
  have "push_bit (nat r) y < 2 ^ (nat n + nat r)" by (rule push_bit_bound [OF y])
  moreover have "x < 2 ^ (nat n + nat r)"
    by (rule order_less_le_trans [OF x(2)]) simp
  ultimately have c1: "push_bit (nat r) y OR x < 2 ^ (nat r + nat n)"
    using OR_upper [of "push_bit (nat r) y" "nat n + nat r" x] y by (simp add: add.commute)
  have e: "(push_bit (nat r) y OR x) AND NOT (push_bit (nat r) (2 ^ nat n - 1)) = x"
    using and_not_shifted_mask [OF c0 c1 order_refl] t by simp
  have "shift ?c n =
     Inr (((push_bit (nat r) y OR x) AND NOT (push_bit (nat (n + r - min n (n + r))) (2 ^ nat n - 1)),
           n + r - min n (n + r)),
          take_bit (nat n) (drop_bit (nat (n + r - min n (n + r))) (push_bit (nat r) y OR x)))"
    by (rule shift_unsigned) (use r n in simp_all)
  also have "n + r - min n (n + r) = r" using r by simp
  finally have "shift ?c n = Inr ((x, r), y)"
    unfolding e d using y by (simp add: take_bit_int_eq_self)
  with i n show ?thesis by (simp add: ea eb size_bm_def)
qed



subsection \<open>Round trips, clamping and the representation invariant\<close>

text \<open>
  Claim C3 (amended).  For well-formed bitmaps \<open>a\<close> and \<open>b\<close> of any width:
  \<open>consume(push(a, b), size(b))\<close> returns \<open>a\<close> together with the integer of \<open>b\<close> when
  \<open>a\<close> is unsigned, and together with the integer of \<open>b\<close> read as a two's complement
  number of \<open>size(b)\<close> bits when \<open>a\<close> is signed; and when \<open>a\<close> and \<open>b\<close> are both
  unsigned, \<open>insert(a, b)\<close> returns a bitmap \<open>c\<close> and \<open>shift(c, size(b))\<close> returns
  \<open>a\<close> together with the integer of \<open>b\<close>.
\<close>

theorem push_consume_roundtrip:
  assumes "wf_bitmap a" and "wf_bitmap b"
  shows "(\<not> signed a \<longrightarrow> consume (push a b) (size_bm b) = Inr (a, fst b))
       \<and> (signed a \<longrightarrow> consume (push a b) (size_bm b) = Inr (a, value (cast_signed b)))
       \<and> (\<not> signed a \<and> \<not> signed b \<longrightarrow>
            (\<exists>c. insert_bm a b = Inr c \<and> shift c (size_bm b) = Inr (a, fst b)))"
proof -
  have "value (cast_unsigned b) = fst b"
    by (cases b) (simp add: cast_unsigned_def value_def)
  with consume_push [OF assms] shift_insert [OF assms] show ?thesis by auto
qed

text \<open>
  The amended round trip of claim C3 at concrete bitmaps: an unsigned \<open>a\<close> with a signed
  \<open>b\<close>, a signed \<open>a\<close> with an unsigned and with a signed \<open>b\<close>, and \<open>insert\<close> then
  \<open>shift\<close> on unsigned bitmaps.
\<close>

theorem push_consume_roundtrip_witness:
  "wf_bitmap (2, 3) \<and> wf_bitmap (13, - 4) \<and> wf_bitmap (5, 4)
   \<and> \<not> signed (2, 3) \<and> signed (13, - 4) \<and> \<not> signed (5, 4)
   \<and> consume (push (2, 3) (13, - 4)) (size_bm (13, - 4)) = Inr ((2, 3), 13)
   \<and> consume (push (13, - 4) (5, 4)) (size_bm (5, 4)) = Inr ((13, - 4), 5)
   \<and> consume (push (13, - 4) (13, - 4)) (size_bm (13, - 4)) = Inr ((13, - 4), - 3)
   \<and> insert_bm (2, 3) (5, 4) = Inr (42, 7)
   \<and> shift (42, 7) (size_bm (5, 4)) = Inr ((2, 3), 5)"
proof -
  have a: "wf_bitmap (2, 3)" and b: "wf_bitmap (13, - 4)" and c: "wf_bitmap (5, 4)"
    by (simp_all add: wf_bitmap_def)
  have s: "\<not> signed (2, 3)" "signed (13, - 4)" "\<not> signed (5, 4)"
    by (simp_all add: signed_def)
  have v: "value (cast_signed (5, 4)) = 5" "value (cast_signed (13, - 4)) = - 3"
    by (simp_all add: value_def cast_signed_def)
  have i: "insert_bm (2, 3) (5, 4) = Inr (42, 7)"
    by (simp add: insert_bm_def)
  from push_consume_roundtrip [OF a b] s
  have 1: "consume (push (2, 3) (13, - 4)) (size_bm (13, - 4)) = Inr ((2, 3), 13)" by simp
  from push_consume_roundtrip [OF b c] s v
  have 2: "consume (push (13, - 4) (5, 4)) (size_bm (5, 4)) = Inr ((13, - 4), 5)" by simp
  from push_consume_roundtrip [OF b b] s v
  have 3: "consume (push (13, - 4) (13, - 4)) (size_bm (13, - 4)) = Inr ((13, - 4), - 3)" by simp
  from push_consume_roundtrip [OF a c] s i
  have 4: "shift (42, 7) (size_bm (5, 4)) = Inr ((2, 3), 5)" by simp
  from a b c s 1 2 3 4 i show ?thesis by simp
qed

text \<open>
  Claim C3 as stated fails: pushing the unsigned 4-bit bitmap \<open>(15, 4)\<close> onto the signed
  bitmap \<open>(0, -4)\<close> and consuming 4 bits gives back \<open>-1\<close>, not 15: \<open>consume\<close> reads the
  bits with the signedness of the bitmap it consumes from.
\<close>

theorem push_consume_signed_counterexample:
  "wf_bitmap (0, - 4) \<and> wf_bitmap (15, 4)
   \<and> consume (push (0, - 4) (15, 4)) (size_bm (15, 4)) = Inr ((0, - 4), - 1)
   \<and> consume (push (0, - 4) (15, 4)) (size_bm (15, 4)) \<noteq> Inr ((0, - 4), fst (15 :: int, 4 :: int))
   \<and> consume (push (0, - 4) (15, 4)) (size_bm (15, 4)) \<noteq> Inr ((0, - 4), value (15, 4))"
  by (simp add: wf_bitmap_def push_def consume_def size_bm_def value_def Let_def)

text \<open>
  Claim C5 on the code: the signed 8-bit bitmap \<open>(255, -8)\<close> holds \<open>-1\<close>.  Consuming its
  8 bits returns \<open>-1\<close>; consuming 16 bits removes the same 8 bits (the count is clamped)
  but returns 255: the sign mask is computed from the requested count, before the clamp.
\<close>

theorem consume_signed_overrun:
  "wf_bitmap (255, - 8)
   \<and> value (255, - 8) = - 1
   \<and> consume (255, - 8) 8 = Inr ((0, 0), - 1)
   \<and> consume (255, - 8) 16 = Inr ((0, 0), 255)"
  by (simp add: wf_bitmap_def value_def consume_def Let_def)




section \<open>Properties of the provider, the loaders and the pointer codec\<close>

subsection \<open>Slices and reads of the string provider\<close>

lemma py_slice_nonneg:
  assumes "0 \<le> i" "i \<le> j" "j \<le> int (length xs)"
  shows "py_slice xs i j = take (nat (j - i)) (drop (nat i) xs)"
  using assms by (simp add: py_slice_def py_clamp_def Let_def min_def)

lemma py_prefix_nonneg: "0 \<le> j \<Longrightarrow> py_prefix xs j = take (nat j) xs"
  by (auto simp: py_prefix_def py_slice_def py_clamp_def Let_def min_def)

lemma py_suffix_nonneg: "0 \<le> i \<Longrightarrow> py_suffix xs i = drop (nat i) xs"
  by (auto simp: py_suffix_def py_slice_def py_clamp_def Let_def min_def)

lemma string_consume_none:
  "0 < amount \<Longrightarrow> int (length (data p)) \<le> offset p \<Longrightarrow> string_consume p amount = Inl ConsumeError"
  by (simp add: string_consume_def)

lemma string_consume_full:
  assumes "0 < amount" "0 \<le> offset p" "offset p + amount \<le> int (length (data p))"
  shows "string_consume p amount =
         Inr (take (nat amount) (drop (nat (offset p)) (data p)), p\<lparr>offset := offset p + amount\<rparr>)"
proof -
  from assms have m: "min (offset p + amount) (int (length (data p))) = offset p + amount" by simp
  have s: "py_slice (data p) (offset p) (offset p + amount)
         = take (nat amount) (drop (nat (offset p)) (data p))"
    using py_slice_nonneg [of "offset p" "offset p + amount" "data p"] assms by simp
  have l: "int (length (take (nat amount) (drop (nat (offset p)) (data p)))) = amount"
    using assms by auto
  then have ne: "take (nat amount) (drop (nat (offset p)) (data p)) \<noteq> []"
    using assms by auto
  show ?thesis
    unfolding string_consume_def Let_def m s using assms l ne by simp
qed

lemma string_consume_partial:
  assumes "0 < amount" "0 \<le> offset p" "offset p < int (length (data p))"
    "int (length (data p)) < offset p + amount"
  shows "string_consume p amount = Inr (drop (nat (offset p)) (data p), p)"
proof -
  from assms have m: "min (offset p + amount) (int (length (data p))) = int (length (data p))" by simp
  have s: "py_slice (data p) (offset p) (int (length (data p))) = drop (nat (offset p)) (data p)"
    using py_slice_nonneg [of "offset p" "int (length (data p))" "data p"] assms by simp
  have l: "int (length (drop (nat (offset p)) (data p))) < amount"
    using assms by auto
  have ne: "drop (nat (offset p)) (data p) \<noteq> []"
    using assms by auto
  show ?thesis
    unfolding string_consume_def Let_def m s using assms l ne by simp
qed

lemma load_type_full:
  assumes "0 < l" "0 \<le> ofs" "ofs + l \<le> int (length d)"
  shows "load \<lparr>data = d, offset = c\<rparr> (Type ofs l v) =
         ((Type ofs l (Some (take (nat l) (drop (nat ofs) d))), \<lparr>data = d, offset = ofs + l\<rparr>), None)"
proof -
  let ?src1 = "\<lparr>data = d, offset = ofs\<rparr>"
  have c: "string_consume ?src1 l =
           Inr (take (nat l) (drop (nat ofs) d), \<lparr>data = d, offset = ofs + l\<rparr>)"
    using string_consume_full [of l ?src1] assms by simp
  have len: "int (length (take (nat l) (drop (nat ofs) d))) = l" using assms by auto
  have "deserialize_block (Type ofs l v) (take (nat l) (drop (nat ofs) d)) =
        (Type ofs l (Some (take (nat l) (drop (nat ofs) d))), None)"
    using assms len by (simp add: py_prefix_nonneg)
  then show ?thesis
    by (simp add: load_def string_seek_def c)
qed

lemma terminated_loop_stops:
  assumes "0 < l" "0 \<le> p" "p + (int k + 1) * l \<le> int (length d)"
    and "\<forall>i<k. \<not> isT (Type (p + int i * l) l (Some (take (nat l) (drop (nat (p + int i * l)) d))))"
    and "isT (Type (p + int k * l) l (Some (take (nat l) (drop (nat (p + int k * l)) d))))"
  shows "terminated_loop bz isT l \<lparr>data = d, offset = c\<rparr> p acc =
         Some ((acc @ map (\<lambda>i. Type (p + int i * l) l
                                  (Some (take (nat l) (drop (nat (p + int i * l)) d)))) [0..<Suc k],
                \<lparr>data = d, offset = p + (int k + 1) * l\<rparr>), None)"
  using assms
proof (induction k arbitrary: p acc c)
  case 0
  then have "p + l \<le> int (length d)" by simp
  from load_type_full [OF "0.prems"(1,2) this, of c None] "0.prems"(5)
  show ?case
    by (subst terminated_loop.simps) simp
next
  case (Suc k)
  let ?e = "\<lambda>p i. Type (p + int i * l) l (Some (take (nat l) (drop (nat (p + int i * l)) d)))"
  have kl: "0 \<le> int k * l" using Suc.prems(1) by simp
  have e3: "p + (int k * l + 2 * l) \<le> int (length d)"
    using Suc.prems(3) by (simp add: algebra_simps)
  from e3 kl Suc.prems(1) have fit: "p + l \<le> int (length d)" by linarith
  have ld: "load \<lparr>data = d, offset = c\<rparr> (Type p l None) = ((?e p 0, \<lparr>data = d, offset = p + l\<rparr>), None)"
    using load_type_full [OF Suc.prems(1,2) fit, of c None] by simp
  from Suc.prems(4) [rule_format, of 0] have nt: "\<not> isT (?e p 0)" by simp
  have sh: "?e (p + l) i = ?e p (Suc i)" for i
    by (simp add: algebra_simps)
  have p1: "0 \<le> p + l" using Suc.prems by simp
  have p2: "p + l + (int k + 1) * l \<le> int (length d)" using Suc.prems(3) by (simp add: algebra_simps)
  have p3: "\<forall>i<k. \<not> isT (?e (p + l) i)" using Suc.prems(4) unfolding sh by auto
  have p4: "isT (?e (p + l) k)" using Suc.prems(5) unfolding sh by simp
  note ih = Suc.IH [OF Suc.prems(1) p1 p2 p3 p4, of "p + l" "acc @ [?e p 0]"]
  have m: "map (?e p) [0..<Suc (Suc k)] = ?e p 0 # map (?e (p + l)) [0..<Suc k]"
    unfolding sh by (simp only: map_Suc_upt [symmetric] upt_conv_Cons [of 0 "Suc (Suc k)"]) simp
  have o: "p + l + (int k + 1) * l = p + (int (Suc k) + 1) * l" by (simp add: algebra_simps)
  show ?case
    apply (subst terminated_loop.simps)
    apply (simp only: ld prod.case option.case nt if_False)
    using Suc.prems(1) apply (simp only: ih m o)
    apply simp
    done
qed


lemma block_loop_stops:
  assumes "0 < l" "0 \<le> p" "p + (int k + 1) * l \<le> int (length d)"
    and "current + int k * l < bsize" "bsize \<le> current + (int k + 1) * l"
    and "\<forall>i<k. \<not> isT (Type (p + int i * l) l (Some (take (nat l) (drop (nat (p + int i * l)) d))))"
  shows "block_loop bz isT bsize l \<lparr>data = d, offset = c\<rparr> p current acc =
         Some ((acc @ map (\<lambda>i. Type (p + int i * l) l
                                  (Some (take (nat l) (drop (nat (p + int i * l)) d)))) [0..<Suc k],
                \<lparr>data = d, offset = p + (int k + 1) * l\<rparr>), None)"
  using assms
proof (induction k arbitrary: p acc c current)
  case 0
  then have "p + l \<le> int (length d)" by simp
  from load_type_full [OF "0.prems"(1,2) this, of c None] "0.prems"(1,5)
  show ?case
    by (subst block_loop.simps) simp
next
  case (Suc k)
  let ?e = "\<lambda>p i. Type (p + int i * l) l (Some (take (nat l) (drop (nat (p + int i * l)) d)))"
  have kl: "0 \<le> int k * l" using Suc.prems(1) by simp
  have e3: "p + (int k * l + 2 * l) \<le> int (length d)"
    using Suc.prems(3) by (simp add: algebra_simps)
  from e3 kl Suc.prems(1) have fit: "p + l \<le> int (length d)" by linarith
  have ld: "load \<lparr>data = d, offset = c\<rparr> (Type p l None) = ((?e p 0, \<lparr>data = d, offset = p + l\<rparr>), None)"
    using load_type_full [OF Suc.prems(1,2) fit, of c None] by simp
  from Suc.prems(6) [rule_format, of 0] have nt: "\<not> isT (?e p 0)" by simp
  have e4: "current + (int k * l + l) < bsize"
    using Suc.prems(4) by (simp add: algebra_simps)
  from e4 kl have below: "\<not> bsize \<le> current + l" by linarith
  have sh: "?e (p + l) i = ?e p (Suc i)" for i
    by (simp add: algebra_simps)
  have p1: "0 \<le> p + l" using Suc.prems by simp
  have p2: "p + l + (int k + 1) * l \<le> int (length d)" using Suc.prems(3) by (simp add: algebra_simps)
  have p3: "current + l + int k * l < bsize" using Suc.prems(4) by (simp add: algebra_simps)
  have p4: "bsize \<le> current + l + (int k + 1) * l" using Suc.prems(5) by (simp add: algebra_simps)
  have p5: "\<forall>i<k. \<not> isT (?e (p + l) i)" using Suc.prems(6) unfolding sh by auto
  note ih = Suc.IH [OF Suc.prems(1) p1 p2 p3 p4 p5, of "p + l" "acc @ [?e p 0]"]
  have m: "map (?e p) [0..<Suc (Suc k)] = ?e p 0 # map (?e (p + l)) [0..<Suc k]"
    unfolding sh by (simp only: map_Suc_upt [symmetric] upt_conv_Cons [of 0 "Suc (Suc k)"]) simp
  have o: "p + l + (int k + 1) * l = p + (int (Suc k) + 1) * l" by (simp add: algebra_simps)
  have nz: "\<not> (l \<le> 0 \<and> bz)" "\<not> l < 0" using Suc.prems(1) by simp_all
  show ?case
    apply (subst block_loop.simps)
    apply (simp only: ld prod.case option.case nt nz below if_False)
    apply (simp only: ih m o)
    apply simp
    done
qed


subsection \<open>Provider reads (claim C4)\<close>

text \<open>
  Claim C4 (amended).  For the string provider, \<open>consume(amount)\<close> with a positive amount
  at a cursor \<open>offset \<ge> 0\<close> fails with \<open>ConsumeError\<close> only when no byte is available at
  the cursor.  When at least \<open>amount\<close> bytes are available it returns exactly \<open>amount\<close>
  bytes and advances the cursor; when some but fewer are available it returns those
  bytes, a non-empty string shorter than \<open>amount\<close>, without an error and without moving
  the cursor.
\<close>

theorem string_consume_short:
  assumes "0 < amount" and "0 \<le> offset p"
  shows "(int (length (data p)) \<le> offset p \<longrightarrow> string_consume p amount = Inl ConsumeError)
       \<and> (offset p + amount \<le> int (length (data p)) \<longrightarrow>
            string_consume p amount =
              Inr (take (nat amount) (drop (nat (offset p)) (data p)), p\<lparr>offset := offset p + amount\<rparr>)
            \<and> int (length (take (nat amount) (drop (nat (offset p)) (data p)))) = amount)
       \<and> (offset p < int (length (data p)) \<and> int (length (data p)) < offset p + amount \<longrightarrow>
            string_consume p amount = Inr (drop (nat (offset p)) (data p), p)
            \<and> drop (nat (offset p)) (data p) \<noteq> []
            \<and> int (length (drop (nat (offset p)) (data p))) < amount)"
proof (intro conjI impI)
  assume "int (length (data p)) \<le> offset p"
  with assms show "string_consume p amount = Inl ConsumeError"
    by (simp add: string_consume_def)
next
  assume h: "offset p + amount \<le> int (length (data p))"
  then have m: "min (offset p + amount) (int (length (data p))) = offset p + amount" by simp
  have s: "py_slice (data p) (offset p) (offset p + amount)
         = take (nat amount) (drop (nat (offset p)) (data p))"
    using py_slice_nonneg [of "offset p" "offset p + amount" "data p"] assms h by simp
  have l: "int (length (take (nat amount) (drop (nat (offset p)) (data p)))) = amount"
    using assms h by auto
  then show "int (length (take (nat amount) (drop (nat (offset p)) (data p)))) = amount" .
  have ne: "take (nat amount) (drop (nat (offset p)) (data p)) \<noteq> []"
    using l assms by auto
  show "string_consume p amount =
        Inr (take (nat amount) (drop (nat (offset p)) (data p)), p\<lparr>offset := offset p + amount\<rparr>)"
    unfolding string_consume_def Let_def m s using assms h l ne by simp
next
  assume h: "offset p < int (length (data p)) \<and> int (length (data p)) < offset p + amount"
  then have m: "min (offset p + amount) (int (length (data p))) = int (length (data p))" by simp
  have s: "py_slice (data p) (offset p) (int (length (data p))) = drop (nat (offset p)) (data p)"
    using py_slice_nonneg [of "offset p" "int (length (data p))" "data p"] assms h by simp
  have l: "int (length (drop (nat (offset p)) (data p))) < amount"
    using assms h by auto
  have ne: "drop (nat (offset p)) (data p) \<noteq> []"
    using assms h by auto
  show "string_consume p amount = Inr (drop (nat (offset p)) (data p), p)"
    unfolding string_consume_def Let_def m s using assms h l ne by simp
  show "drop (nat (offset p)) (data p) \<noteq> []" by (rule ne)
  show "int (length (drop (nat (offset p)) (data p))) < amount" by (rule l)
qed

text \<open>
  The three cases of the amended claim C4 on the buffer \<open>"abc"\<close>.
\<close>

theorem string_consume_short_witness:
  "(0::int) < 2 \<and> (0::int) < 5 \<and> 0 \<le> offset \<lparr>data = ''abc'', offset = 1\<rparr>
   \<and> string_consume \<lparr>data = ''abc'', offset = 1\<rparr> 2 = Inr (''bc'', \<lparr>data = ''abc'', offset = 3\<rparr>)
   \<and> string_consume \<lparr>data = ''abc'', offset = 1\<rparr> 5 = Inr (''bc'', \<lparr>data = ''abc'', offset = 1\<rparr>)
   \<and> string_consume \<lparr>data = ''abc'', offset = 3\<rparr> 2 = Inl ConsumeError"
proof -
  let ?p = "\<lparr>data = ''abc'', offset = 1\<rparr>" and ?q = "\<lparr>data = ''abc'', offset = 3\<rparr>"
  have a: "(0::int) < 2" "(0::int) < 5" by simp_all
  have b: "0 \<le> offset ?p" "0 \<le> offset ?q" by simp_all
  from string_consume_short [OF a(1) b(1)]
  have 1: "string_consume ?p 2 = Inr (''bc'', \<lparr>data = ''abc'', offset = 3\<rparr>)" by simp
  from string_consume_short [OF a(2) b(1)]
  have 2: "string_consume ?p 5 = Inr (''bc'', ?p)" by simp
  from string_consume_short [OF a(1) b(2)]
  have 3: "string_consume ?q 2 = Inl ConsumeError" by simp
  from a b 1 2 3 show ?thesis by simp
qed

text \<open>
  Claim C4 as stated fails: on the buffer \<open>"abc"\<close> with the cursor at 1, \<open>consume(5)\<close>
  returns the two bytes \<open>"bc"\<close> and raises nothing.
\<close>

theorem string_consume_truncates_counterexample:
  "string_consume \<lparr>data = ''abc'', offset = 1\<rparr> 5 = Inr (''bc'', \<lparr>data = ''abc'', offset = 1\<rparr>)
   \<and> int (length ''bc'') \<noteq> 5"
  by (simp add: string_consume_def py_slice_def py_clamp_def Let_def)


subsection \<open>Array termination (claim C8)\<close>

text \<open>
  Claim C8.  Let the provider hold, from offset \<open>p\<close> on, at least \<open>k + 1\<close> elements of
  \<open>l > 0\<close> bytes each, the first \<open>k\<close> of which are no terminators.  A sentinel-terminated
  array whose element \<open>k\<close> is a terminator loads exactly the elements \<open>0..k\<close>, the
  terminator included.  A block-bounded array whose block size is reached by element
  \<open>k\<close> (\<open>k * l < blocksize \<le> (k + 1) * l\<close>) loads exactly the elements \<open>0..k\<close>.  Neither
  reads further.
\<close>

theorem array_termination_policies:
  assumes "0 < l" and "0 \<le> p" and "p + (int k + 1) * l \<le> int (length d)"
    and "\<forall>i<k. \<not> isT (Type (p + int i * l) l (Some (take (nat l) (drop (nat (p + int i * l)) d))))"
  shows "(isT (Type (p + int k * l) l (Some (take (nat l) (drop (nat (p + int k * l)) d)))) \<longrightarrow>
            terminated_load bz isT l \<lparr>data = d, offset = c\<rparr> p =
              Some ((Container p (Some (map (\<lambda>i. Type (p + int i * l) l
                        (Some (take (nat l) (drop (nat (p + int i * l)) d)))) [0..<Suc k])),
                     \<lparr>data = d, offset = p + (int k + 1) * l\<rparr>), None))
       \<and> (int k * l < bsize \<and> bsize \<le> (int k + 1) * l \<longrightarrow>
            block_load bz isT bsize l \<lparr>data = d, offset = c\<rparr> p =
              Some ((Container p (Some (map (\<lambda>i. Type (p + int i * l) l
                        (Some (take (nat l) (drop (nat (p + int i * l)) d)))) [0..<Suc k])),
                     \<lparr>data = d, offset = p + (int k + 1) * l\<rparr>), None))"
proof (intro conjI impI)
  assume t: "isT (Type (p + int k * l) l (Some (take (nat l) (drop (nat (p + int k * l)) d))))"
  show "terminated_load bz isT l \<lparr>data = d, offset = c\<rparr> p =
          Some ((Container p (Some (map (\<lambda>i. Type (p + int i * l) l
                    (Some (take (nat l) (drop (nat (p + int i * l)) d)))) [0..<Suc k])),
                 \<lparr>data = d, offset = p + (int k + 1) * l\<rparr>), None)"
    unfolding terminated_load_def
    by (simp only: terminated_loop_stops [OF assms t]) simp
next
  assume b: "int k * l < bsize \<and> bsize \<le> (int k + 1) * l"
  then have b1: "0 + int k * l < bsize" and b2: "bsize \<le> 0 + (int k + 1) * l" by simp_all
  have "0 \<le> int k * l" using assms(1) by simp
  with b have nz: "bsize \<noteq> 0" by simp
  show "block_load bz isT bsize l \<lparr>data = d, offset = c\<rparr> p =
          Some ((Container p (Some (map (\<lambda>i. Type (p + int i * l) l
                    (Some (take (nat l) (drop (nat (p + int i * l)) d)))) [0..<Suc k])),
                 \<lparr>data = d, offset = p + (int k + 1) * l\<rparr>), None)"
    unfolding block_load_def
    by (simp only: block_loop_stops [OF assms(1,2,3) b1 b2 assms(4)] nz if_False) simp
qed

text \<open>
  The two examples of claim C8: over \<open>"ABAB\\0CD"\<close> with one-byte elements and the zero
  byte as terminator the array has the 5 elements \<open>A, B, A, B, \\0\<close>; over \<open>"WXYZ1234"\<close>
  with 4-byte elements and a block size of 4 the array has the single element \<open>WXYZ\<close>.
\<close>

theorem array_termination_policies_witness:
  "terminated_load True (\<lambda>n. case n of Type p l (Some v) \<Rightarrow> v = [CHR 0x00] | _ \<Rightarrow> False) 1
       \<lparr>data = ''ABAB'' @ [CHR 0x00] @ ''CD'', offset = 0\<rparr> 0 =
     Some ((Container 0 (Some [Type 0 1 (Some ''A''), Type 1 1 (Some ''B''), Type 2 1 (Some ''A''),
                               Type 3 1 (Some ''B''), Type 4 1 (Some [CHR 0x00])]),
            \<lparr>data = ''ABAB'' @ [CHR 0x00] @ ''CD'', offset = 5\<rparr>), None)
   \<and> block_load True (\<lambda>n. False) 4 4 \<lparr>data = ''WXYZ1234'', offset = 0\<rparr> 0 =
     Some ((Container 0 (Some [Type 0 4 (Some ''WXYZ'')]),
            \<lparr>data = ''WXYZ1234'', offset = 4\<rparr>), None)"
proof -
  let ?d = "''ABAB'' @ [CHR 0x00] @ ''CD''"
  let ?isT = "\<lambda>n. case n of Type p l (Some v) \<Rightarrow> v = [CHR 0x00] | _ \<Rightarrow> False"
  have a: "(0::int) < 1" "(0::int) \<le> 0" by simp_all
  have b: "0 + (int 4 + 1) * 1 \<le> int (length ?d)" by simp
  have c: "\<forall>i<4. \<not> ?isT (Type (0 + int i * 1) 1 (Some (take (nat 1) (drop (nat (0 + int i * 1)) ?d))))"
    by (auto simp: less_Suc_eq numeral_eq_Suc)
  have 1: "terminated_load True ?isT 1 \<lparr>data = ?d, offset = 0\<rparr> 0 =
     Some ((Container 0 (Some [Type 0 1 (Some ''A''), Type 1 1 (Some ''B''), Type 2 1 (Some ''A''),
                               Type 3 1 (Some ''B''), Type 4 1 (Some [CHR 0x00])]),
            \<lparr>data = ?d, offset = 5\<rparr>), None)"
    using array_termination_policies [OF a b c, of True 0 0]
    by (simp add: upt_rec numeral_eq_Suc del: upt_Suc)
  have a': "(0::int) < 4" by simp
  have b': "0 + (int 0 + 1) * 4 \<le> int (length ''WXYZ1234'')" by simp
  have c': "\<forall>i<0. \<not> (\<lambda>n. False) (Type (0 + int i * 4) 4 (Some (take (nat 4) (drop (nat (0 + int i * 4)) ''WXYZ1234''))))"
    by simp
  have 2: "block_load True (\<lambda>n. False) 4 4 \<lparr>data = ''WXYZ1234'', offset = 0\<rparr> 0 =
     Some ((Container 0 (Some [Type 0 4 (Some ''WXYZ'')]),
            \<lparr>data = ''WXYZ1234'', offset = 4\<rparr>), None)"
    using array_termination_policies [OF a' a(2) b' c', of True 0 4]
    by (simp add: numeral_eq_Suc)
  from 1 2 show ?thesis by simp
qed

subsection \<open>Alignment padding (claim C9)\<close>

text \<open>
  Claim C9 on the code: an \<open>align(3)\<close> field after a 2-byte field in a container at
  offset 0 sits at offset 2; its computed size is \<open>(-2) & 2 = 2\<close>, while \<open>(-2) mod 3 = 1\<close>.
\<close>

theorem align_not_modulo:
  "align_blocksize 3 (Some (Container 0 (Some [Type 0 2 None, Type 2 0 None]))) (Some 1) = Inr 2
   \<and> (- (2::int)) mod 3 = 1"
  by (simp add: numeral_2_eq_2)

text \<open>For a power of two the mask is the modulus, so there the size is \<open>(-o) mod n\<close>.\<close>

lemma align_power_of_two:
  "blocksize_sum (take idx elems) = Inr s \<Longrightarrow>
   align_blocksize (2 ^ k) (Some (Container p (Some elems))) (Some idx) = Inr ((- (p + s)) mod 2 ^ k)"
  by (simp add: and_pow2m1 take_bit_eq_mod)

subsection \<open>The checksummed pointer (claim C2)\<close>

text \<open>
  Claim C2 on the code, at the cookie \<open>0xAB\<close> and the pointer \<open>0x1122334455667788\<close> of an
  8-byte \<open>ptr_union\<close>: \<open>encode\<close> rotates left, ors the checksum in and rotates back, which
  leaves the pointer in place with the checksum in its top nibble; \<open>decode\<close> of that
  rotates left by 4 and clears the low nibble, so it returns \<open>0x1223344556677880\<close>, not
  the pointer, and logs a checksum mismatch.
\<close>

theorem ptr_union_roundtrip_fails:
  "encode 0xAB 8 0x1122334455667788 = Some (Inr 0xF122334455667788)
   \<and> decode 0xAB 8 0xF122334455667788 = Some (Inr (0x1223344556677880, True))
   \<and> (0x1223344556677880 :: int) \<noteq> 0x1122334455667788"
  by code_simp

text \<open>
  \<open>decode\<close> does not raise on a mismatch: a value that carries the right checksum decodes
  without the flag, and the same value with its checksum nibble corrupted decodes to the
  same pointer with the flag set.
\<close>

lemma decode_flags_mismatch:
  "decode 0xAB 8 0x7112233445566778 = Some (Inr (0x1122334455667780, False))
   \<and> decode 0xAB 8 0x6112233445566778 = Some (Inr (0x1122334455667780, True))"
  by code_simp


subsection \<open>Partial loads of a structure (claim C1)\<close>

lemma struct_fields_blocksize: "blocksize_sum (struct_fields flds ofs) = Inr (sum_list flds)"
  by (induction flds arbitrary: ofs) simp_all

lemma struct_fields_size: "size_sum (struct_fields flds ofs) = 0"
  by (induction flds arbitrary: ofs) simp_all

lemma struct_fields_length: "length (struct_fields flds ofs) = length flds"
  by (induction flds arbitrary: ofs) simp_all

lemma sum_list_nonneg_take: "\<forall>l\<in>set flds. (0::int) \<le> l \<Longrightarrow> 0 \<le> sum_list (take i flds)"
  by (rule sum_list_nonneg) (auto dest: in_set_takeD)

lemma deserialize_short:
  assumes "\<forall>l\<in>set flds. 0 \<le> l" and "int (length block) < sum_list flds"
    and "expected = tot + sum_list flds"
  shows "\<exists>elems' tot'.
           deserialize_elems (struct_fields flds ofs) block tot expected
             = ((elems', tot'), Some StopIteration)
         \<and> length elems' = length flds
         \<and> size_sum elems' = int (length block)
         \<and> blocksize_sum elems' = Inr (sum_list flds)
         \<and> (\<forall>i<length flds. sum_list (take (Suc i) flds) \<le> int (length block) \<longrightarrow>
               elems' ! i = Type (ofs + sum_list (take i flds)) (flds ! i)
                 (Some (take (nat (flds ! i)) (drop (nat (sum_list (take i flds))) block))))"
  using assms
proof (induction flds arbitrary: ofs block tot)
  case Nil
  then show ?case by simp
next
  case (Cons l ls)
  from Cons.prems have l0: "0 \<le> l" and ls0: "\<forall>l\<in>set ls. 0 \<le> l" by simp_all
  have sls: "0 \<le> sum_list ls" using ls0 by (simp add: sum_list_nonneg)
  from Cons.prems have lt: "tot < expected" by simp
  show ?case
  proof (cases "l \<le> int (length block)")
    case True
    let ?b = "drop (nat l) block"
    have pb: "py_prefix block l = take (nat l) block" using l0 by (rule py_prefix_nonneg)
    have ps: "py_suffix block l = ?b" using l0 by (rule py_suffix_nonneg)
    have lent: "int (length (take (nat l) block)) = l" using True l0 by simp
    have d1: "deserialize_block (Type ofs l None) (take (nat l) block)
             = (Type ofs l (Some (take (nat l) block)), None)"
      using lent l0 by (simp add: py_prefix_nonneg)
    have lenb: "int (length ?b) = int (length block) - l" using True l0 by simp
    have short': "int (length ?b) < sum_list ls" using Cons.prems(2) lenb by simp
    have exp': "expected = (tot + l) + sum_list ls" using Cons.prems(3) by simp
    from Cons.IH [OF ls0 short' exp', of "ofs + l"]
    obtain elems' tot' where
      r: "deserialize_elems (struct_fields ls (ofs + l)) ?b (tot + l) expected
            = ((elems', tot'), Some StopIteration)"
      and len: "length elems' = length ls"
      and sz: "size_sum elems' = int (length ?b)"
      and bs: "blocksize_sum elems' = Inr (sum_list ls)"
      and kept: "\<forall>i<length ls. sum_list (take (Suc i) ls) \<le> int (length ?b) \<longrightarrow>
               elems' ! i = Type (ofs + l + sum_list (take i ls)) (ls ! i)
                 (Some (take (nat (ls ! i)) (drop (nat (sum_list (take i ls))) ?b)))"
      by blast
    let ?n = "Type ofs l (Some (take (nat l) block))"
    have e: "deserialize_elems (struct_fields (l # ls) ofs) block tot expected
             = ((?n # elems', tot'), Some StopIteration)"
      using lt by (simp add: pb ps d1 r del: deserialize_block.simps)
    have s1: "size_sum (?n # elems') = int (length block)"
      using sz lenb lent by simp
    have b1: "blocksize_sum (?n # elems') = Inr (sum_list (l # ls))"
      using bs by simp
    have k1: "(?n # elems') ! i = Type (ofs + sum_list (take i (l # ls))) ((l # ls) ! i)
                 (Some (take (nat ((l # ls) ! i)) (drop (nat (sum_list (take i (l # ls)))) block)))"
      if i: "i < length (l # ls)" and fit: "sum_list (take (Suc i) (l # ls)) \<le> int (length block)" for i
    proof (cases i)
      case 0
      then show ?thesis by simp
    next
      case (Suc j)
      with i have j: "j < length ls" by simp
      from fit Suc have "sum_list (take (Suc j) ls) \<le> int (length ?b)"
        using lenb by simp
      with kept j have kj: "elems' ! j = Type (ofs + l + sum_list (take j ls)) (ls ! j)
                 (Some (take (nat (ls ! j)) (drop (nat (sum_list (take j ls))) ?b)))" by blast
      have sj: "0 \<le> sum_list (take j ls)" using ls0 by (rule sum_list_nonneg_take)
      have "drop (nat (sum_list (take j ls))) ?b = drop (nat (l + sum_list (take j ls))) block"
        using l0 sj by (simp add: nat_add_distrib add.commute)
      with kj Suc show ?thesis by (simp add: add.assoc)
    qed
    from e len s1 b1 k1 show ?thesis by (intro exI [of _ "?n # elems'"] exI [of _ tot']) simp
  next
    case False
    then have gt: "int (length block) < l" by simp
    have pb: "py_prefix block l = block" using l0 gt by (simp add: py_prefix_nonneg)
    let ?n = "Type ofs l (Some block)"
    have d1: "deserialize_block (Type ofs l None) block = (?n, Some StopIteration)"
      using gt pb by simp
    have e: "deserialize_elems (struct_fields (l # ls) ofs) block tot expected
             = ((?n # struct_fields ls (ofs + l), tot), Some StopIteration)"
      using lt by (simp add: pb d1 del: deserialize_block.simps)
    have s1: "size_sum (?n # struct_fields ls (ofs + l)) = int (length block)"
      by (simp add: struct_fields_size)
    have b1: "blocksize_sum (?n # struct_fields ls (ofs + l)) = Inr (sum_list (l # ls))"
      by (simp add: struct_fields_blocksize)
    have k1: "\<not> sum_list (take (Suc i) (l # ls)) \<le> int (length block)" for i
    proof -
      have "0 \<le> sum_list (take i ls)" using ls0 by (rule sum_list_nonneg_take)
      with gt show ?thesis by simp
    qed
    from e s1 b1 k1 show ?thesis
      by (intro exI [of _ "?n # struct_fields ls (ofs + l)"] exI [of _ tot])
         (simp add: struct_fields_length)
  qed
qed


text \<open>
  Claim C1 (amended).  A structure of atomic fields with non-negative lengths is loaded
  at offset \<open>p\<close> from a string provider that holds fewer bytes from \<open>p\<close> on than the
  structure's \<open>blocksize()\<close>.  Then \<open>load\<close> returns the instance and raises nothing
  (\<open>container.load\<close> catches the \<open>LoadError\<close> and logs it); the instance's \<open>blocksize()\<close>
  is the sum of the field lengths, its \<open>size()\<close> is the number of bytes that were
  available, which is less, and it is not initialized; every field that lies entirely
  within the available bytes holds exactly its bytes of the provider.
\<close>

theorem pstruct_partial_load:
  assumes "\<forall>l\<in>set flds. 0 \<le> l" and "0 \<le> p" and "p \<le> int (length d)"
    and "int (length d) - p < sum_list flds"
  shows "\<exists>elems src'.
           pstruct_load \<lparr>data = d, offset = c\<rparr> p flds = ((Container p (Some elems), src'), None)
         \<and> blocksize (Container p (Some elems)) = Inr (sum_list flds)
         \<and> size_of (Container p (Some elems)) = int (length d) - p
         \<and> \<not> initializedQ (Container p (Some elems))
         \<and> length elems = length flds
         \<and> (\<forall>i<length flds.
               p < int (length d) \<and> sum_list (take (Suc i) flds) \<le> int (length d) - p \<longrightarrow>
               elems ! i = Type (p + sum_list (take i flds)) (flds ! i)
                 (Some (take (nat (flds ! i)) (drop (nat (p + sum_list (take i flds))) d))))"
proof -
  let ?self = "Container p (Some (struct_fields flds p))"
  let ?src1 = "\<lparr>data = d, offset = p\<rparr>"
  let ?S = "sum_list flds"
  have S0: "0 < ?S" using assms by simp
  have bs: "blocksize ?self = Inr ?S" by (simp add: struct_fields_blocksize)
  show ?thesis
  proof (cases "p = int (length d)")
    case True
    have c: "string_consume ?src1 ?S = Inl ConsumeError"
      using string_consume_none [of ?S ?src1] S0 True by simp
    have l: "load \<lparr>data = d, offset = c\<rparr> ?self = ((?self, ?src1), Some LoadError)"
      unfolding load_def Let_def bs by (simp add: string_seek_def c caught_by_load_def)
    have "pstruct_load \<lparr>data = d, offset = c\<rparr> p flds
          = ((?self, snd (string_seek ?src1 (p + ?S))), None)"
      unfolding pstruct_load_def container_load.simps l
      by (simp add: struct_fields_blocksize)
    moreover have "size_of ?self = int (length d) - p"
      using True by (simp add: struct_fields_size)
    moreover have "\<not> initializedQ ?self"
      using S0 by (simp add: struct_fields_blocksize struct_fields_size)
    ultimately show ?thesis
      using bs True by (intro exI [of _ "struct_fields flds p"] exI) (simp add: struct_fields_length)
  next
    case False
    with assms have lt: "p < int (length d)" by simp
    let ?block = "drop (nat p) d"
    have lenb: "int (length ?block) = int (length d) - p" using assms lt by simp
    have c: "string_consume ?src1 ?S = Inr (?block, ?src1)"
      using string_consume_partial [of ?S ?src1] S0 assms lt by simp
    have short: "int (length ?block) < ?S" using assms(4) lenb by simp
    have ex: "?S = 0 + ?S" by simp
    from deserialize_short [OF assms(1) short ex, of p]
    obtain elems' tot' where
      r: "deserialize_elems (struct_fields flds p) ?block 0 ?S = ((elems', tot'), Some StopIteration)"
      and len: "length elems' = length flds"
      and sz: "size_sum elems' = int (length ?block)"
      and bs': "blocksize_sum elems' = Inr ?S"
      and kept: "\<forall>i<length flds. sum_list (take (Suc i) flds) \<le> int (length ?block) \<longrightarrow>
               elems' ! i = Type (p + sum_list (take i flds)) (flds ! i)
                 (Some (take (nat (flds ! i)) (drop (nat (sum_list (take i flds))) ?block)))"
      by blast
    let ?res = "Container p (Some elems')"
    have d: "deserialize_block ?self ?block = (?res, Some StopIteration)"
      by (simp add: struct_fields_blocksize r)
    have l: "load \<lparr>data = d, offset = c\<rparr> ?self = ((?res, ?src1), Some LoadError)"
      unfolding load_def Let_def bs
      by (simp add: string_seek_def c d caught_by_load_def del: deserialize_block.simps)
    have pl: "pstruct_load \<lparr>data = d, offset = c\<rparr> p flds
          = ((?res, snd (string_seek ?src1 (p + ?S))), None)"
      unfolding pstruct_load_def container_load.simps l
      by (simp add: bs')
    have s: "size_of ?res = int (length d) - p" using sz lenb by simp
    have ni: "\<not> initializedQ ?res" using bs' sz lenb assms(4) by simp
    have k: "elems' ! i = Type (p + sum_list (take i flds)) (flds ! i)
                 (Some (take (nat (flds ! i)) (drop (nat (p + sum_list (take i flds))) d)))"
      if "i < length flds" "sum_list (take (Suc i) flds) \<le> int (length d) - p" for i
    proof -
      have s0: "0 \<le> sum_list (take i flds)" using assms(1) by (rule sum_list_nonneg_take)
      have dr: "drop (nat (sum_list (take i flds))) ?block = drop (nat (p + sum_list (take i flds))) d"
        using assms(2) s0 by (simp add: nat_add_distrib add.commute)
      from that(2) have "sum_list (take (Suc i) flds) \<le> int (length ?block)"
        by (simp only: lenb)
      with kept that(1) have "elems' ! i = Type (p + sum_list (take i flds)) (flds ! i)
                 (Some (take (nat (flds ! i)) (drop (nat (sum_list (take i flds))) ?block)))"
        by blast
      then show ?thesis by (simp only: dr)
    qed
    from pl s ni len k bs' show ?thesis
      by (intro exI [of _ elems'] exI) simp
  qed
qed

text \<open>
  Claim C1 as stated fails: loading three 4-byte fields from the 11 bytes
  \<open>"AAAABBBBCCC"\<close> (the repository's test \<open>test_structure_assign_partial\<close>) returns the
  instance with no exception; the third field holds the 3 bytes that were left.
\<close>

theorem pstruct_partial_load_counterexample:
  "pstruct_load \<lparr>data = ''AAAABBBBCCC'', offset = 0\<rparr> 0 [4, 4, 4] =
     ((Container 0 (Some [Type 0 4 (Some ''AAAA''), Type 4 4 (Some ''BBBB''), Type 8 4 (Some ''CCC'')]),
       \<lparr>data = ''AAAABBBBCCC'', offset = 12\<rparr>), None)
   \<and> blocksize (Container 0 (Some [Type 0 4 None, Type 4 4 None, Type 8 4 None])) = Inr 12
   \<and> int (length ''AAAABBBBCCC'') < 12"
  by code_simp

text \<open>
  The amended claim C1 on the same structure: \<open>size() = 11 < 12 = blocksize()\<close>, and the
  first two fields keep \<open>"AAAA"\<close> and \<open>"BBBB"\<close>.
\<close>

theorem pstruct_partial_load_witness:
  "int (length ''AAAABBBBCCC'') - 0 < sum_list [4, 4, 4 :: int]
   \<and> (\<exists>elems src'.
        pstruct_load \<lparr>data = ''AAAABBBBCCC'', offset = 0\<rparr> 0 [4, 4, 4]
          = ((Container 0 (Some elems), src'), None)
        \<and> blocksize (Container 0 (Some elems)) = Inr 12
        \<and> size_of (Container 0 (Some elems)) = 11
        \<and> \<not> initializedQ (Container 0 (Some elems))
        \<and> elems ! 0 = Type 0 4 (Some ''AAAA'')
        \<and> elems ! 1 = Type 4 4 (Some ''BBBB''))"
proof -
  let ?d = "''AAAABBBBCCC''"
  have a: "\<forall>l\<in>set [4, 4, 4 :: int]. 0 \<le> l" by simp
  have b: "(0::int) \<le> 0" "0 \<le> int (length ?d)" by simp_all
  have c: "int (length ?d) - 0 < sum_list [4, 4, 4]" by simp
  from pstruct_partial_load [OF a b c, of 0]
  obtain elems src' where
    1: "pstruct_load \<lparr>data = ?d, offset = 0\<rparr> 0 [4, 4, 4] = ((Container 0 (Some elems), src'), None)"
    and 2: "blocksize (Container 0 (Some elems)) = Inr (sum_list [4, 4, 4])"
    and 3: "size_of (Container 0 (Some elems)) = int (length ?d) - 0"
    and 4: "\<not> initializedQ (Container 0 (Some elems))"
    and 5: "\<forall>i<length [4, 4, 4 :: int].
               0 < int (length ?d) \<and> sum_list (take (Suc i) [4, 4, 4]) \<le> int (length ?d) - 0 \<longrightarrow>
               elems ! i = Type (0 + sum_list (take i [4, 4, 4])) ([4, 4, 4] ! i)
                 (Some (take (nat ([4, 4, 4] ! i)) (drop (nat (0 + sum_list (take i [4, 4, 4]))) ?d)))"
    by blast
  from 2 have b12: "blocksize (Container 0 (Some elems)) = Inr 12" by simp
  from 3 have s11: "size_of (Container 0 (Some elems)) = 11" by simp
  from 5 [rule_format, of 0] have 6: "elems ! 0 = Type 0 4 (Some ''AAAA'')" by simp
  from 5 [rule_format, of 1] have 7: "elems ! 1 = Type 4 4 (Some ''BBBB'')" by simp
  from c 1 b12 s11 4 6 7 show ?thesis by blast
qed

subsection \<open>Offsets after a recursive update (claim C7)\<close>

lemma initialized_blocksize:
  "initializedQ n \<Longrightarrow> \<exists>b. blocksize n = Inr b"
  "initializedQ_all ns \<Longrightarrow> \<exists>b. blocksize_sum ns = Inr b"
proof (induction n and ns rule: blocksize_blocksize_sum.induct)
  case (3 p ns)
  then show ?case by (auto split: sum.splits)
next
  case (5 n ns)
  then show ?case by auto
qed simp_all

lemma setposition_preserves:
  "size_of (fst (setposition n ofs rec)) = size_of n
   \<and> initializedQ (fst (setposition n ofs rec)) = initializedQ n
   \<and> blocksize (fst (setposition n ofs rec)) = blocksize n
   \<and> getoffset (fst (setposition n ofs rec)) = ofs"
  "size_sum (fst (setposition_elems ns ofs)) = size_sum ns
   \<and> initializedQ_all (fst (setposition_elems ns ofs)) = initializedQ_all ns
   \<and> blocksize_sum (fst (setposition_elems ns ofs)) = blocksize_sum ns
   \<and> length (fst (setposition_elems ns ofs)) = length ns"
proof (induction n ofs rec and ns ofs rule: setposition_setposition_elems.induct)
  case (1 p l v ofs rec)
  then show ?case by (cases v) simp_all
next
  case (2 p ofs rec)
  then show ?case by simp
next
  case (3 p ns ofs rec)
  show ?case
  proof (cases rec)
    case True
    obtain ns' e where sr: "setposition_elems ns ofs = (ns', e)"
      by (cases "setposition_elems ns ofs")
    from "3.IH" [OF True] sr
    have "size_sum ns' = size_sum ns" "initializedQ_all ns' = initializedQ_all ns"
      "blocksize_sum ns' = blocksize_sum ns" by simp_all
    with True sr show ?thesis by (simp split: sum.splits)
  next
    case False
    then show ?thesis by simp
  qed
next
  case (4 ofs)
  then show ?case by simp
next
  case (5 n ns ofs)
  obtain n' e where sn: "setposition n ofs True = (n', e)" by (cases "setposition n ofs True")
  from "5.IH"(1) sn have pn: "size_of n' = size_of n" "initializedQ n' = initializedQ n"
    "blocksize n' = blocksize n" by simp_all
  show ?case
  proof (cases e)
    case (Some err)
    with sn pn show ?thesis by simp
  next
    case None
    show ?thesis
    proof (cases "if initializedQ n' then Inr (size_of n') else blocksize n'")
      case (Inl err)
      with sn None pn show ?thesis by simp
    next
      case (Inr d)
      obtain ns' e' where sr: "setposition_elems ns (ofs + d) = (ns', e')"
        by (cases "setposition_elems ns (ofs + d)")
      from "5.IH"(2) [OF sn [symmetric] None Inr] sr
      have "size_sum ns' = size_sum ns \<and> initializedQ_all ns' = initializedQ_all ns
            \<and> blocksize_sum ns' = blocksize_sum ns \<and> length ns' = length ns" by simp
      with sn None Inr sr pn show ?thesis by (simp cong: sum.case_cong)
    qed
  qed
qed


lemma setposition_initialized:
  "initializedQ n \<Longrightarrow> snd (setposition n ofs rec) = None"
  "initializedQ_all ns \<Longrightarrow> snd (setposition_elems ns ofs) = None"
proof (induction n ofs rec and ns ofs rule: setposition_setposition_elems.induct)
  case (3 p ns ofs rec)
  then show ?case by (cases rec) (auto split: prod.splits)
next
  case (5 n ns ofs)
  obtain n' e where sn: "setposition n ofs True = (n', e)" by (cases "setposition n ofs True")
  from "5.prems" have i: "initializedQ n" "initializedQ_all ns" by simp_all
  from "5.IH"(1) [OF i(1)] sn have e: "e = None" by simp
  from setposition_preserves(1) [of n ofs True] sn have pn: "initializedQ n'" using i by simp
  obtain ns' e' where sr: "setposition_elems ns (ofs + size_of n') = (ns', e')"
    by (cases "setposition_elems ns (ofs + size_of n')")
  from "5.IH"(2) [OF sn [symmetric] e _ i(2), of "size_of n'"] pn sr have "e' = None" by simp
  with sn e pn sr show ?case by simp
qed simp_all

lemma setposition_elems_chain:
  assumes "setposition_elems ns ofs = (ns', None)"
  shows "length ns' = length ns
       \<and> (ns \<noteq> [] \<longrightarrow> getoffset (ns' ! 0) = ofs)
       \<and> (\<forall>i<length ns. size_of (ns' ! i) = size_of (ns ! i)
                          \<and> initializedQ (ns' ! i) = initializedQ (ns ! i)
                          \<and> blocksize (ns' ! i) = blocksize (ns ! i))
       \<and> (\<forall>i. Suc i < length ns \<longrightarrow>
             (initializedQ (ns ! i) \<longrightarrow>
                getoffset (ns' ! Suc i) = getoffset (ns' ! i) + size_of (ns ! i))
           \<and> (\<not> initializedQ (ns ! i) \<longrightarrow>
                blocksize (ns ! i) = Inr (getoffset (ns' ! Suc i) - getoffset (ns' ! i))))"
  using assms
proof (induction ns arbitrary: ofs ns')
  case Nil
  then show ?case by simp
next
  case (Cons n ns)
  obtain n' e where sn: "setposition n ofs True = (n', e)" by (cases "setposition n ofs True")
  from setposition_preserves(1) [of n ofs True] sn
  have pn: "size_of n' = size_of n" "initializedQ n' = initializedQ n"
    "blocksize n' = blocksize n" "getoffset n' = ofs" by simp_all
  from Cons.prems sn have e: "e = None" by (cases e) auto
  let ?step = "if initializedQ n' then Inr (size_of n') else blocksize n'"
  from Cons.prems sn e obtain d where st: "?step = Inr d"
    by (cases ?step) auto
  obtain ms e' where sr: "setposition_elems ns (ofs + d) = (ms, e')"
    by (cases "setposition_elems ns (ofs + d)")
  from Cons.prems sn e st sr have res: "ns' = n' # ms" and e': "e' = None"
    by (auto split: if_splits)
  note ih = Cons.IH [OF sr [unfolded e']]
  from ih have len: "length ms = length ns" by simp
  have step_i: "initializedQ n \<Longrightarrow> d = size_of n" using st pn by simp
  have step_u: "\<not> initializedQ n \<Longrightarrow> blocksize n = Inr d" using st pn by simp
  have same: "size_of (ns' ! i) = size_of ((n # ns) ! i)
              \<and> initializedQ (ns' ! i) = initializedQ ((n # ns) ! i)
              \<and> blocksize (ns' ! i) = blocksize ((n # ns) ! i)" if "i < length (n # ns)" for i
    using that ih pn res by (cases i) auto
  have chain: "(initializedQ ((n # ns) ! i) \<longrightarrow>
                getoffset (ns' ! Suc i) = getoffset (ns' ! i) + size_of ((n # ns) ! i))
           \<and> (\<not> initializedQ ((n # ns) ! i) \<longrightarrow>
                blocksize ((n # ns) ! i) = Inr (getoffset (ns' ! Suc i) - getoffset (ns' ! i)))"
    if "Suc i < length (n # ns)" for i
  proof (cases i)
    case 0
    with that have "ns \<noteq> []" by auto
    with ih have "getoffset (ms ! 0) = ofs + d" by simp
    with 0 res pn step_i step_u show ?thesis by auto
  next
    case (Suc j)
    with that have "Suc j < length ns" by simp
    with ih Suc res show ?thesis by simp
  qed
  from res len pn same chain show ?case by simp
qed


lemma initializedQ_all_set: "initializedQ_all ns = (\<forall>n\<in>set ns. initializedQ n)"
  by (induction ns) simp_all

lemma py_index_valid:
  "py_index xs i = Inr j \<Longrightarrow> j < length xs \<and> - int (length xs) \<le> i \<and> i < int (length xs)"
  by (auto simp: py_index_def Let_def split: if_splits)

lemma py_index_total:
  "- int (length xs) \<le> i \<Longrightarrow> i < int (length xs) \<Longrightarrow> \<exists>j<length xs. py_index xs i = Inr j"
  by (auto simp: py_index_def Let_def)

lemma py_insert_length: "length (py_insert xs i x) = Suc (length xs)"
  by (simp add: py_insert_def Let_def)

lemma py_insert_set: "set (py_insert xs i x) = insert x (set xs)"
proof -
  have "set (take j xs) \<union> set (drop j xs) = set xs" for j
    by (metis append_take_drop_id set_append)
  then show ?thesis by (auto simp: py_insert_def Let_def)
qed

lemma insert_loop_ok:
  assumes "\<forall>n\<in>set xs. initializedQ n"
    and "\<forall>i\<in>set is. - int (length xs) \<le> i \<and> i < int (length xs)"
  shows "\<exists>xs'. insert_loop is xs ofs = (xs', None) \<and> length xs' = length xs
              \<and> (\<forall>n\<in>set xs'. initializedQ n)"
  using assms
proof (induction "is" arbitrary: xs ofs)
  case Nil
  then show ?case by simp
next
  case (Cons i rest)
  from Cons.prems(2) obtain j where j: "j < length xs" "py_index xs i = Inr j"
    using py_index_total [of xs i] by auto
  from Cons.prems(1) j have ij: "initializedQ (xs ! j)" by simp
  obtain v e where sv: "setposition (xs ! j) ofs True = (v, e)"
    by (cases "setposition (xs ! j) ofs True")
  from setposition_initialized(1) [OF ij, of ofs True] sv have e: "e = None" by simp
  from setposition_preserves(1) [of "xs ! j" ofs True] sv ij have iv: "initializedQ v" by simp
  from initialized_blocksize(1) [OF iv] obtain bs where bs: "blocksize v = Inr bs" by blast
  have "\<forall>n\<in>set (xs[j := v]). initializedQ n"
    using Cons.prems(1) iv set_update_subset_insert [of xs j v] by auto
  moreover have "\<forall>i\<in>set rest. - int (length (xs[j := v])) \<le> i \<and> i < int (length (xs[j := v]))"
    using Cons.prems(2) by simp
  ultimately obtain xs' where
    "insert_loop rest (xs[j := v]) (ofs + bs) = (xs', None)" "length xs' = length (xs[j := v])"
    "\<forall>n\<in>set xs'. initializedQ n"
    using Cons.IH [of "xs[j := v]" "ofs + bs"] by blast
  with j sv e bs show ?case by (simp add: setoffset_def)
qed

lemma insert_parray_ok:
  assumes "\<forall>n\<in>set ns. initializedQ n" and "initializedQ object" and "py_index ns index = Inr j"
  shows "\<exists>ns1. insert_parray (Container p (Some ns)) index object = (Container p (Some ns1), None)
              \<and> length ns1 = Suc (length ns) \<and> (\<forall>n\<in>set ns1. initializedQ n)"
proof -
  let ?ofs = "getoffset (ns ! j)"
  obtain object' e where so: "setposition object ?ofs True = (object', e)"
    by (cases "setposition object ?ofs True")
  from setposition_initialized(1) [OF assms(2), of ?ofs True] so have e: "e = None" by simp
  from setposition_preserves(1) [of object ?ofs True] so assms(2) have io: "initializedQ object'"
    by simp
  let ?xs = "py_insert ns index object'"
  have len: "length ?xs = Suc (length ns)" by (rule py_insert_length)
  have ini: "\<forall>n\<in>set ?xs. initializedQ n" using assms(1) io by (simp add: py_insert_set)
  from py_index_valid [OF assms(3)] have rng: "- int (length ns) \<le> index" "index < int (length ns)"
    by simp_all
  have "\<forall>i\<in>set [index..int (length ?xs) - 1]. - int (length ?xs) \<le> i \<and> i < int (length ?xs)"
    using rng len by auto
  from insert_loop_ok [OF ini this, of ?ofs]
  obtain xs' where "insert_loop [index..int (length ?xs) - 1] ?xs ?ofs = (xs', None)"
    "length xs' = length ?xs" "\<forall>n\<in>set xs'. initializedQ n" by blast
  with assms(3) so e len show ?thesis by (simp add: setoffset_def Let_def)
qed

text \<open>
  Claim C7.  A recursive \<open>setposition\<close> of a container that returns gives the first child
  the container's new offset and every next child the offset of the child before it
  plus that child's \<open>size()\<close> if it is initialized, or its \<open>blocksize()\<close> if it is not.
  Consequently, inserting an initialized object at a valid index into an array of
  initialized elements and then updating the offsets recursively succeeds, and
  afterwards the offset of every element after the first is the offset of the element
  before it plus that element's size.
\<close>

theorem offset_reflow:
  "(setposition (Container p (Some ns)) ofs True = (c', None) \<longrightarrow>
      (\<exists>ns'. c' = Container ofs (Some ns') \<and> length ns' = length ns
         \<and> (ns \<noteq> [] \<longrightarrow> getoffset (ns' ! 0) = ofs)
         \<and> (\<forall>i. Suc i < length ns \<longrightarrow>
               (initializedQ (ns' ! i) \<longrightarrow>
                  getoffset (ns' ! Suc i) = getoffset (ns' ! i) + size_of (ns' ! i))
             \<and> (\<not> initializedQ (ns' ! i) \<longrightarrow>
                  blocksize (ns' ! i) = Inr (getoffset (ns' ! Suc i) - getoffset (ns' ! i))))))
   \<and> ((\<forall>n\<in>set ns. initializedQ n) \<and> initializedQ object \<and> py_index ns index = Inr j \<longrightarrow>
        (\<exists>arr1 ns2.
            insert_parray (Container p (Some ns)) index object = (arr1, None)
          \<and> setoffset arr1 (getoffset arr1) True = (Container p (Some ns2), None)
          \<and> length ns2 = Suc (length ns)
          \<and> (\<forall>i. Suc i < length ns2 \<longrightarrow>
                getoffset (ns2 ! Suc i) = getoffset (ns2 ! i) + size_of (ns2 ! i))))"
proof (intro conjI impI)
  assume h: "setposition (Container p (Some ns)) ofs True = (c', None)"
  obtain ns' e where sr: "setposition_elems ns ofs = (ns', e)"
    by (cases "setposition_elems ns ofs")
  with h have c': "c' = Container ofs (Some ns')" and e: "e = None" by simp_all
  note ch = setposition_elems_chain [OF sr [unfolded e]]
  have "(initializedQ (ns' ! i) \<longrightarrow>
            getoffset (ns' ! Suc i) = getoffset (ns' ! i) + size_of (ns' ! i))
      \<and> (\<not> initializedQ (ns' ! i) \<longrightarrow>
            blocksize (ns' ! i) = Inr (getoffset (ns' ! Suc i) - getoffset (ns' ! i)))"
    if "Suc i < length ns" for i
  proof -
    from that have "i < length ns" by simp
    with ch have "size_of (ns' ! i) = size_of (ns ! i)" "initializedQ (ns' ! i) = initializedQ (ns ! i)"
      "blocksize (ns' ! i) = blocksize (ns ! i)" by simp_all
    with ch that show ?thesis by simp
  qed
  with c' ch show "\<exists>ns'. c' = Container ofs (Some ns') \<and> length ns' = length ns
         \<and> (ns \<noteq> [] \<longrightarrow> getoffset (ns' ! 0) = ofs)
         \<and> (\<forall>i. Suc i < length ns \<longrightarrow>
               (initializedQ (ns' ! i) \<longrightarrow>
                  getoffset (ns' ! Suc i) = getoffset (ns' ! i) + size_of (ns' ! i))
             \<and> (\<not> initializedQ (ns' ! i) \<longrightarrow>
                  blocksize (ns' ! i) = Inr (getoffset (ns' ! Suc i) - getoffset (ns' ! i))))"
    by blast
next
  assume h: "(\<forall>n\<in>set ns. initializedQ n) \<and> initializedQ object \<and> py_index ns index = Inr j"
  from insert_parray_ok [of ns object index j p] h
  obtain ns1 where i1: "insert_parray (Container p (Some ns)) index object = (Container p (Some ns1), None)"
    and l1: "length ns1 = Suc (length ns)" and a1: "\<forall>n\<in>set ns1. initializedQ n" by blast
  obtain ns2 e where sr: "setposition_elems ns1 p = (ns2, e)"
    by (cases "setposition_elems ns1 p")
  from a1 have "initializedQ_all ns1" by (simp add: initializedQ_all_set)
  from setposition_initialized(2) [OF this, of p] sr have e: "e = None" by simp
  note ch = setposition_elems_chain [OF sr [unfolded e]]
  have s2: "setoffset (Container p (Some ns1)) (getoffset (Container p (Some ns1))) True
            = (Container p (Some ns2), None)"
    using sr e by (simp add: setoffset_def)
  have "getoffset (ns2 ! Suc i) = getoffset (ns2 ! i) + size_of (ns2 ! i)"
    if "Suc i < length ns2" for i
  proof -
    from that ch have i: "Suc i < length ns1" "i < length ns1" by simp_all
    with a1 have "initializedQ (ns1 ! i)" by simp
    moreover from ch i have "size_of (ns2 ! i) = size_of (ns1 ! i)" by simp
    ultimately show ?thesis using ch i by simp
  qed
  with i1 s2 l1 ch show "\<exists>arr1 ns2.
            insert_parray (Container p (Some ns)) index object = (arr1, None)
          \<and> setoffset arr1 (getoffset arr1) True = (Container p (Some ns2), None)
          \<and> length ns2 = Suc (length ns)
          \<and> (\<forall>i. Suc i < length ns2 \<longrightarrow>
                getoffset (ns2 ! Suc i) = getoffset (ns2 ! i) + size_of (ns2 ! i))"
    by (intro exI [of _ "Container p (Some ns1)"] exI [of _ ns2]) simp
qed


text \<open>
  Claim C7 at concrete containers: a container with an initialized, a partially loaded
  and an unloaded child (the partially loaded one advances the offset by its blocksize),
  and the insertion of \<open>"XX"\<close> at index 1 of an array of three 2-byte elements.
\<close>

theorem offset_reflow_witness:
  "setposition (Container 0 (Some [Type 0 4 (Some ''ABCD''), Type 0 4 (Some ''AB''), Type 0 2 None])) 10 True
     = (Container 10 (Some [Type 10 4 (Some ''ABCD''), Type 14 4 (Some ''AB''), Type 18 2 None]), None)
   \<and> (\<exists>ns'. Container 10 (Some [Type 10 4 (Some ''ABCD''), Type 14 4 (Some ''AB''), Type 18 2 None])
              = Container 10 (Some ns')
         \<and> initializedQ (ns' ! 0) \<and> getoffset (ns' ! 1) = getoffset (ns' ! 0) + size_of (ns' ! 0)
         \<and> \<not> initializedQ (ns' ! 1) \<and> blocksize (ns' ! 1) = Inr (getoffset (ns' ! 2) - getoffset (ns' ! 1)))
   \<and> initializedQ (Type 100 2 (Some ''XX''))
   \<and> py_index [Type 0 2 (Some ''AA''), Type 2 2 (Some ''BB''), Type 4 2 (Some ''CC'')] 1 = Inr 1
   \<and> (\<exists>arr1 ns2.
         insert_parray (Container 0 (Some [Type 0 2 (Some ''AA''), Type 2 2 (Some ''BB''),
                                           Type 4 2 (Some ''CC'')])) 1 (Type 100 2 (Some ''XX''))
           = (arr1, None)
       \<and> setoffset arr1 (getoffset arr1) True = (Container 0 (Some ns2), None)
       \<and> length ns2 = 4
       \<and> (\<forall>i. Suc i < length ns2 \<longrightarrow>
             getoffset (ns2 ! Suc i) = getoffset (ns2 ! i) + size_of (ns2 ! i)))"
proof -
  let ?ns = "[Type 0 4 (Some ''ABCD''), Type 0 4 (Some ''AB''), Type 0 2 None]"
  let ?ns' = "[Type 10 4 (Some ''ABCD''), Type 14 4 (Some ''AB''), Type 18 2 None]"
  let ?arr = "[Type 0 2 (Some ''AA''), Type 2 2 (Some ''BB''), Type 4 2 (Some ''CC'')]"
  let ?x = "Type 100 2 (Some ''XX'')"
  have A: "setposition (Container 0 (Some ?ns)) 10 True = (Container 10 (Some ?ns'), None)"
    by simp
  from offset_reflow [THEN conjunct1, rule_format, OF A]
  obtain ns' where n: "Container 10 (Some ?ns') = Container 10 (Some ns')"
    and ch: "\<forall>i. Suc i < length ?ns \<longrightarrow>
               (initializedQ (ns' ! i) \<longrightarrow>
                  getoffset (ns' ! Suc i) = getoffset (ns' ! i) + size_of (ns' ! i))
             \<and> (\<not> initializedQ (ns' ! i) \<longrightarrow>
                  blocksize (ns' ! i) = Inr (getoffset (ns' ! Suc i) - getoffset (ns' ! i)))"
    by blast
  from n have i0: "initializedQ (ns' ! 0)" and i1: "\<not> initializedQ (ns' ! 1)" by auto
  from ch [rule_format, of 0] i0
  have c0: "getoffset (ns' ! 1) = getoffset (ns' ! 0) + size_of (ns' ! 0)" by simp
  from ch [rule_format, of 1] i1
  have c1: "blocksize (ns' ! 1) = Inr (getoffset (ns' ! 2) - getoffset (ns' ! 1))"
    by (simp add: numeral_2_eq_2)
  have B: "(\<forall>n\<in>set ?arr. initializedQ n) \<and> initializedQ ?x \<and> py_index ?arr 1 = Inr 1"
    by (simp add: py_index_def)
  have l: "Suc (length ?arr) = 4" by simp
  from offset_reflow [THEN conjunct2, rule_format, OF B, of 0]
  have C: "\<exists>arr1 ns2.
         insert_parray (Container 0 (Some ?arr)) 1 ?x = (arr1, None)
       \<and> setoffset arr1 (getoffset arr1) True = (Container 0 (Some ns2), None)
       \<and> length ns2 = 4
       \<and> (\<forall>i. Suc i < length ns2 \<longrightarrow>
             getoffset (ns2 ! Suc i) = getoffset (ns2 ! i) + size_of (ns2 ! i))"
    by (simp only: l)
  from A n i0 i1 c0 c1 B C show ?thesis by blast
qed

subsection \<open>The frame of a cast (claim C10)\<close>

lemma clamp_ok:
  "par = None \<or> (\<exists>po b. par = Some (po, Inr b)) \<Longrightarrow> \<exists>r. clamp_to_parent par p res = Inr r"
  by (auto simp: clamp_to_parent_def Let_def)

lemma serialize_initialized:
  "initializedQ n \<Longrightarrow> par = None \<or> (\<exists>po b. par = Some (po, Inr b)) \<Longrightarrow>
     \<exists>s. serialize par n = Inr s"
  "initializedQ_all ns \<Longrightarrow> par = None \<or> (\<exists>po b. par = Some (po, Inr b)) \<Longrightarrow>
     \<exists>s. serialize_join par ns = Inr s"
proof (induction par n and par ns rule: serialize_serialize_join.induct)
  case (1 par p l v)
  then show ?case by (simp add: Let_def)
next
  case (2 par p)
  then show ?case by simp
next
  case (3 par p ns)
  from "3.prems"(1) obtain bs where bs: "blocksize_sum ns = Inr bs" and ia: "initializedQ_all ns"
    by (auto split: sum.splits)
  from "3.IH"(2) [OF bs ia] obtain result where j: "serialize_join (Some (p, Inr bs)) ns = Inr result"
    by auto
  from clamp_ok [OF "3.prems"(2), of p bs] obtain bs' where c: "clamp_to_parent par p bs = Inr bs'"
    by blast
  show ?case by (simp add: bs j c)
next
  case (4 par)
  then show ?case by simp
next
  case (5 par n ns)
  from "5.prems" have i: "initializedQ n" "initializedQ_all ns" by simp_all
  from "5.IH"(1) [OF i(1) "5.prems"(2)] obtain s where s: "serialize par n = Inr s" by blast
  from "5.IH"(2) [OF s i(2) "5.prems"(2)] obtain r where "serialize_join par ns = Inr r" by blast
  with s show ?case by simp
qed

lemma cast_frame_aux:
  assumes "x < length h" and "cast h x t = (h', res)"
  shows "(\<forall>a<length h. h' ! a = h ! a)
       \<and> (\<forall>r. res = Inr r \<longrightarrow> r = length h \<and> r \<noteq> x \<and> length h' = Suc (length h))"
proof (cases "serialize (parent_info_of h (parent (h ! x))) (node (h ! x))")
  case (Inl e)
  with assms show ?thesis by (auto simp: cast_def)
next
  case d: (Inr bytes)
  show ?thesis
  proof (cases "blocksize (node (h ! x))")
    case (Inl e)
    with assms d show ?thesis by (auto simp: cast_def)
  next
    case b: (Inr bs)
    from assms(2) have r: "r = length h \<and> length h' = Suc (length h)" if "res = Inr r" for r
      using that by (auto simp: cast_def Let_def d b split: prod.splits option.splits if_splits)
    have "h' ! a = h ! a" if "a < length h" for a
      using assms that
      by (auto simp: cast_def Let_def d b nth_append nth_list_update
               split: prod.splits option.splits if_splits)
    with r assms(1) show ?thesis by auto
  qed
qed

lemma cast_type_shape:
  assumes "x < length h"
    and "serialize (parent_info_of h (parent (h ! x))) (node (h ! x)) = Inr bytes"
    and "blocksize (node (h ! x)) = Inr bs"
  shows "\<exists>h'. cast h x (type_shape l) = (h', Inr (length h))
           \<and> node (h' ! length h) = Type (getoffset (node (h ! x))) l (Some (py_prefix bytes l))
           \<and> parent (h' ! length h) = parent (h ! x)"
  using assms
  by (auto simp: cast_def Let_def type_shape_def setoffset_def nth_append nth_list_update
           split: prod.splits option.splits sum.splits)

lemma parent_info_of_frame:
  assumes "\<forall>a. par = Some a \<longrightarrow> a < length h" and "\<forall>a<length h. h' ! a = h ! a"
  shows "parent_info_of h' par = parent_info_of h par"
  using assms by (cases par) (simp_all add: parent_info_of_def)

text \<open>
  Claim C10.  Let \<open>x\<close> be an object of the store whose parent, if any, is in the store.
  For every shape \<open>t\<close>, whatever \<open>x.cast(t)\<close> does, every object that was in the store is
  the same afterwards; in particular the offset, the initialization state and the
  serialized bytes of \<open>x\<close> are what they were.  When the call returns, the result is a
  new object, distinct from \<open>x\<close>.  If moreover \<open>x\<close> is initialized and the blocksize of its
  parent does not raise, then the cast to an atomic shape of any length \<open>l\<close> does return,
  and the new instance sits at the offset of \<open>x\<close> and holds the first \<open>l\<close> serialized
  bytes of \<open>x\<close>.
\<close>

theorem cast_leaves_source_unchanged:
  assumes "x < length h" and "\<forall>a. parent (h ! x) = Some a \<longrightarrow> a < length h"
  shows "(\<forall>t h' res. cast h x t = (h', res) \<longrightarrow>
            (\<forall>a<length h. h' ! a = h ! a)
          \<and> getoffset (node (h' ! x)) = getoffset (node (h ! x))
          \<and> initializedQ (node (h' ! x)) = initializedQ (node (h ! x))
          \<and> serialize (parent_info_of h' (parent (h' ! x))) (node (h' ! x))
              = serialize (parent_info_of h (parent (h ! x))) (node (h ! x))
          \<and> (\<forall>r. res = Inr r \<longrightarrow> r = length h \<and> r \<noteq> x \<and> length h' = Suc (length h)))
       \<and> (initializedQ (node (h ! x))
           \<and> (parent_info_of h (parent (h ! x)) = None
                \<or> (\<exists>po b. parent_info_of h (parent (h ! x)) = Some (po, Inr b))) \<longrightarrow>
            (\<forall>l. \<exists>h' bytes.
                 cast h x (type_shape l) = (h', Inr (length h))
               \<and> serialize (parent_info_of h (parent (h ! x))) (node (h ! x)) = Inr bytes
               \<and> node (h' ! length h) = Type (getoffset (node (h ! x))) l (Some (py_prefix bytes l))))"
proof (intro conjI allI impI)
  fix t h' res
  assume c: "cast h x t = (h', res)"
  note f = cast_frame_aux [OF assms(1) c]
  from f show "h' ! a = h ! a" if "a < length h" for a using that by simp
  from f assms(1) have e: "h' ! x = h ! x" by simp
  then show "getoffset (node (h' ! x)) = getoffset (node (h ! x))"
    and "initializedQ (node (h' ! x)) = initializedQ (node (h ! x))" by simp_all
  from f have "\<forall>a<length h. h' ! a = h ! a" by simp
  from parent_info_of_frame [OF assms(2) this]
  show "serialize (parent_info_of h' (parent (h' ! x))) (node (h' ! x))
        = serialize (parent_info_of h (parent (h ! x))) (node (h ! x))"
    by (simp add: e)
  from f show "r = length h" "r \<noteq> x" "length h' = Suc (length h)" if "res = Inr r" for r
    using that by simp_all
next
  fix l
  assume i: "initializedQ (node (h ! x))
           \<and> (parent_info_of h (parent (h ! x)) = None
                \<or> (\<exists>po b. parent_info_of h (parent (h ! x)) = Some (po, Inr b)))"
  from serialize_initialized(1) [of "node (h ! x)" "parent_info_of h (parent (h ! x))"] i
  obtain bytes where
    d: "serialize (parent_info_of h (parent (h ! x))) (node (h ! x)) = Inr bytes" by blast
  from initialized_blocksize(1) [of "node (h ! x)"] i obtain bs where
    b: "blocksize (node (h ! x)) = Inr bs" by blast
  from cast_type_shape [OF assms(1) d b, of l] d
  show "\<exists>h' bytes.
          cast h x (type_shape l) = (h', Inr (length h))
        \<and> serialize (parent_info_of h (parent (h ! x))) (node (h ! x)) = Inr bytes
        \<and> node (h' ! length h) = Type (getoffset (node (h ! x))) l (Some (py_prefix bytes l))"
    by blast
qed

text \<open>
  Claim C10, an instance: casting the four-byte value \<open>ABCD\<close> to an atomic shape of
  length two returns a second object holding \<open>AB\<close> and leaves the first as it was.
\<close>

theorem cast_leaves_source_unchanged_witness:
  "(0::nat) < length [\<lparr>node = Type 0 4 (Some ''ABCD''), attributes = [''note'' \<mapsto> ''x''], parent = None\<rparr>]
   \<and> initializedQ (Type 0 4 (Some ''ABCD''))
   \<and> (\<exists>h'. cast [\<lparr>node = Type 0 4 (Some ''ABCD''), attributes = [''note'' \<mapsto> ''x''], parent = None\<rparr>] 0
                 (type_shape 2) = (h', Inr 1)
        \<and> length h' = 2
        \<and> h' ! 0 = \<lparr>node = Type 0 4 (Some ''ABCD''), attributes = [''note'' \<mapsto> ''x''], parent = None\<rparr>
        \<and> node (h' ! 1) = Type 0 2 (Some ''AB''))"
proof -
  let ?x = "\<lparr>node = Type 0 4 (Some ''ABCD''), attributes = [''note'' \<mapsto> ''x''], parent = None\<rparr>"
  let ?h = "[?x]"
  have a: "(0::nat) < length ?h" by simp
  have b: "\<forall>a. parent (?h ! 0) = Some a \<longrightarrow> a < length ?h" by simp
  have i: "initializedQ (Type 0 4 (Some ''ABCD''))" by simp
  have p: "initializedQ (node (?h ! 0))
           \<and> (parent_info_of ?h (parent (?h ! 0)) = None
                \<or> (\<exists>po b. parent_info_of ?h (parent (?h ! 0)) = Some (po, Inr b)))"
    by (simp add: parent_info_of_def)
  note t = cast_leaves_source_unchanged [OF a b]
  from t [THEN conjunct2, rule_format, OF p, of 2]
  obtain h' bytes where c: "cast ?h 0 (type_shape 2) = (h', Inr (length ?h))"
    and s: "serialize (parent_info_of ?h (parent (?h ! 0))) (node (?h ! 0)) = Inr bytes"
    and n: "node (h' ! length ?h) = Type (getoffset (node (?h ! 0))) 2 (Some (py_prefix bytes 2))"
    by blast
  note g = t [THEN conjunct1, rule_format, OF c]
  from g have f: "\<forall>a<length ?h. h' ! a = ?h ! a" by blast
  from f have x0: "h' ! 0 = ?x" by simp
  from g have len: "length h' = 2" by simp
  from s have "bytes = ''ABCD''" by (simp add: parent_info_of_def)
  with n have nr: "node (h' ! 1) = Type 0 2 (Some ''AB'')"
    by (simp add: py_prefix_nonneg)
  from c have c1: "cast ?h 0 (type_shape 2) = (h', Inr 1)" by simp
  from a i c1 len x0 nr show ?thesis by blast
qed

end
